theory Spec2Isabelle
  imports Complex_Main
begin

section \<open>Hospital simulation: the scripts DTA1.py and dta.py\<close>

text \<open>
  The scripts run a queueing simulation on the simpy library: patients arrive, request
  one of the doctors of a \<open>simpy.Resource\<close>, wait until the request is granted, and are
  treated or leave. The functions of DTA1.py (\<open>patient\<close>, \<open>Hospital.treat\<close>,
  \<open>setup\<close>, \<open>add_doctors\<close>, the module-level statements and the report) are embedded
  from the source; \<open>add_doctors\<close> is the same function in dta.py, whose report is
  embedded beside that of DTA1.py.

  The library the scripts call (the environment with its clock and event heap, the
  processes, the resource) is not part of the repository. It is embedded from sections
  3 and 4 of the specification, one step of the model for each event the library
  processes: a process starts when its \<open>Initialize\<close> event is processed, a granted
  request resumes the requester through the event of the request, and a freed slot is
  granted when the event of the release is processed, all at the simulated time at
  which section 4 puts them.

  Simulated time is a Python float; it is modelled by an exact rational. The random
  module is a parameter of the model (the random-variate source of section 6).
\<close>

subsection \<open>Exceptions\<close>

datatype error = ValueError | IndexError | ZeroDivisionError

subsection \<open>The resource pool\<close>

text \<open>
  Modelled from the spec: \<open>simpy.Resource\<close>, the resource pool of section 4.3, is
  library code that is not under src/. A pool has a fixed \<open>capacity\<close>, the requests
  that hold a slot (\<open>users\<close>, so that \<open>in_use\<close> is their number) and the FIFO
  \<open>put_queue\<close> of pending requests (the \<open>wait_queue\<close>). A request is identified by a
  number and carries the callbacks that run when its grant is processed.
\<close>

datatype callback = Resume nat | Trigger_put nat | Trigger_get nat | Stop_simulation

type_synonym request = "nat \<times> callback list"

record resource =
  capacity :: nat
  users :: "request list"
  put_queue :: "request list"

definition in_use :: "resource \<Rightarrow> nat" where
  "in_use r = length (users r)"

text \<open>
  Modelled from the spec: the constructor of the pool. The library refuses a capacity
  that is not positive.
\<close>

definition Resource :: "int \<Rightarrow> error + resource" where
  "Resource c =
     (if c \<le> 0 then Inl ValueError
      else Inr \<lparr>capacity = nat c, users = [], put_queue = []\<rparr>)"

text \<open>
  Modelled from the spec: granting. The longest-waiting pending request gets a slot
  when one is free (\<open>in_use < capacity\<close>); the result names the request that was
  granted, whose event the environment then schedules.
\<close>

definition trigger_put :: "resource \<Rightarrow> resource \<times> request option" where
  "trigger_put r =
     (case put_queue r of
        [] \<Rightarrow> (r, None)
      | q # qs \<Rightarrow>
          if length (users r) < capacity r
          then (r\<lparr>users := users r @ [q], put_queue := qs\<rparr>, Some q)
          else (r, None))"

text \<open>
  Modelled from the spec: \<open>acquire\<close>, in the words of section 4.3: with a free slot
  the requester is granted at once and never waits, otherwise the request is enqueued.
\<close>

definition acquire :: "resource \<Rightarrow> request \<Rightarrow> resource \<times> request option" where
  "acquire r q =
     (if in_use r < capacity r then (r\<lparr>users := users r @ [q]\<rparr>, Some q)
      else (r\<lparr>put_queue := put_queue r @ [q]\<rparr>, None))"

text \<open>
  Modelled from the spec: \<open>Resource.request()\<close>, the form of \<open>acquire\<close> that the
  scripts call. The request joins the end of the queue and the head of the queue is
  granted if a slot is free. On a settled pool, where no request waits while a slot is
  free, this is \<open>acquire\<close>; the spec's operations leave a pool settled.
\<close>

definition request :: "resource \<Rightarrow> request \<Rightarrow> resource \<times> request option" where
  "request r q = trigger_put (r\<lparr>put_queue := put_queue r @ [q]\<rparr>)"

definition settled :: "resource \<Rightarrow> bool" where
  "settled r = (put_queue r = [] \<or> capacity r \<le> in_use r)"

text \<open>
  Modelled from the spec: \<open>release\<close>. The slot of the request is freed at once (a
  request that holds no slot frees nothing); the library grants the freed slot to the
  head of the queue when the release event is processed, which is \<open>trigger_put\<close>. The
  spec's one-step \<open>release\<close> is the two in a row.
\<close>

definition release :: "resource \<Rightarrow> request \<Rightarrow> resource" where
  "release r q = r\<lparr>users := remove1 q (users r)\<rparr>"

definition release_and_grant :: "resource \<Rightarrow> request \<Rightarrow> resource \<times> request option" where
  "release_and_grant r q = trigger_put (release r q)"

text \<open>
  Modelled from the spec: \<open>expand(by)\<close> of section 4.3, a true growth of the capacity
  followed by grants to the longest-waiting requests while a slot is free. Neither the
  library nor the scripts have this operation (\<open>add_doctors\<close> below is what the scripts
  do instead).
\<close>

fun grant_waiting :: "nat \<Rightarrow> resource \<Rightarrow> resource \<times> request list" where
  "grant_waiting 0 r = (r, [])"
| "grant_waiting (Suc n) r =
     (case trigger_put r of
        (r', None) \<Rightarrow> (r', [])
      | (r', Some q) \<Rightarrow> (case grant_waiting n r' of (r'', qs) \<Rightarrow> (r'', q # qs)))"

definition expand :: "nat \<Rightarrow> resource \<Rightarrow> resource \<times> request list" where
  "expand amount r =
     (let r' = r\<lparr>capacity := capacity r + amount\<rparr>
      in grant_waiting (length (put_queue r')) r')"

subsection \<open>The environment: clock, event heap and processes\<close>

text \<open>
  Modelled from the spec: \<open>simpy.Environment\<close> (the clock and event queue of section
  4.1 and the process scheduler of section 4.2) is library code that is not under src/.
  An event carries its callbacks; the heap orders events by time, then priority
  (\<open>URGENT\<close>, for the start of a process and the end of a run, before \<open>NORMAL\<close>),
  then the insertion counter \<open>eid\<close>, which is the \<open>sequence\<close> tie-break of section 3.
\<close>

datatype kind = Initialize | Timeout | Request | Release | Process | Until

type_synonym event = "kind \<times> callback list"

type_synonym entry = "rat \<times> nat \<times> nat \<times> event"

definition URGENT :: nat where "URGENT = 0"

definition NORMAL :: nat where "NORMAL = 1"

definition key_less :: "entry \<Rightarrow> entry \<Rightarrow> bool" where
  "key_less a b =
     (case a of (t, p, i, _) \<Rightarrow> case b of (t', p', i', _) \<Rightarrow>
        t < t' \<or> (t = t' \<and> (p < p' \<or> (p = p' \<and> i < i'))))"

text \<open>
  Modelled from the spec: popping the minimum event. \<open>heappop\<close> takes the entry with
  the least key out of the heap, whatever the arrangement of the heap.
\<close>

fun heappop :: "entry list \<Rightarrow> (entry \<times> entry list) option" where
  "heappop [] = None"
| "heappop (e # q) =
     (case heappop q of
        None \<Rightarrow> Some (e, [])
      | Some (m, r) \<Rightarrow> if key_less m e then Some (m, e # r) else Some (e, q))"

text \<open>
  The suspended generators of the scripts, one constructor for each place where a
  generator can be: before its first statement, or at one of its \<open>yield\<close>s, with the
  local variables it keeps.
\<close>

datatype generator =
    Setup_start int rat rat
  | Setup_loop nat nat rat rat
  | Patient_start nat nat
  | Patient_request nat nat request
  | Patient_treat nat nat request
  | Treat_start nat nat
  | Treat_timeout nat nat rat
  | Add_doctors_start nat nat
  | Add_doctors_loop nat nat
  | Finished

text \<open>A \<open>Hospital\<close> object (DTA1.py, lines 20-24).\<close>

record hospital =
  doctor :: resource
  treatment_time :: rat

text \<open>The lines the scripts print while the simulation runs.\<close>

datatype line =
    Arrives nat rat
  | Was_treated nat rat
  | Leaves_treated nat rat
  | Leaves_untreated nat rat
  | Arrives_after nat rat
  | Adding nat rat

text \<open>
  The state of a run: the environment (\<open>now\<close>, \<open>eid\<close>, \<open>queue\<close>), the processes with
  the callbacks of their termination events, the store of \<open>Hospital\<close> objects, the
  number of requests created and of random draws made, the four module-level lists
  (DTA1.py, lines 14-17) and the console. A process and a \<open>Hospital\<close> are named by
  their index in \<open>procs\<close> and \<open>hospitals\<close>: two names of the same object are the same
  index.
\<close>

record state =
  now :: rat
  eid :: nat
  queue :: "entry list"
  procs :: "(generator \<times> callback list) list"
  hospitals :: "hospital list"
  rid :: nat
  draws :: nat
  arrival_times :: "rat list"
  treated_times :: "rat list"
  left_without_treatment_times :: "rat list"
  wait_times :: "rat list"
  console :: "line list"

text \<open>
  The module-level constants of the scripts, and the random module: \<open>random rs i\<close> is
  what \<open>random.random()\<close> returns and \<open>expovariate rs i lambd\<close> what
  \<open>random.expovariate(lambd)\<close> returns when it is draw number \<open>i\<close> of the run.
\<close>

record config =
  NUM_DOCTORS :: int
  TREATMENT_TIME :: rat
  T_INTER :: rat
  SIM_TIME :: rat
  TREAT_PROBABILITY :: rat

record random_source =
  random :: "nat \<Rightarrow> rat"
  expovariate :: "nat \<Rightarrow> rat \<Rightarrow> rat"

text \<open>
  Modelled from the spec: \<open>schedule(delay, continuation)\<close> puts an event on the heap at
  \<open>now + delay\<close> with the next value of the insertion counter.
\<close>

definition schedule :: "event \<Rightarrow> nat \<Rightarrow> rat \<Rightarrow> state \<Rightarrow> state" where
  "schedule ev priority delay s =
     s\<lparr>queue := queue s @ [(now s + delay, priority, eid s, ev)], eid := Suc (eid s)\<rparr>"

text \<open>
  Modelled from the spec: \<open>env.timeout(delay)\<close>, awaited by the process that creates
  it; a negative delay is refused (\<open>InvalidDelay\<close>, a \<open>ValueError\<close> of the library).
\<close>

definition timeout :: "rat \<Rightarrow> callback list \<Rightarrow> state \<Rightarrow> error + state" where
  "timeout delay cbs s =
     (if delay < 0 then Inl ValueError else Inr (schedule (Timeout, cbs) NORMAL delay s))"

text \<open>
  Modelled from the spec: \<open>env.process(generator)\<close> spawns a process. It starts when
  its \<open>Initialize\<close> event is processed, at the time of the spawn and before every
  event of normal priority; \<open>cbs\<close> are the callbacks of its termination event.
\<close>

definition process :: "generator \<Rightarrow> callback list \<Rightarrow> state \<Rightarrow> state" where
  "process g cbs s =
     schedule (Initialize, [Resume (length (procs s))]) URGENT 0
       (s\<lparr>procs := procs s @ [(g, cbs)]\<rparr>)"

text \<open>Modelled from the spec: a process suspends at a \<open>yield\<close> of its generator.\<close>

definition suspend :: "nat \<Rightarrow> generator \<Rightarrow> state \<Rightarrow> state" where
  "suspend pid g s = s\<lparr>procs := (procs s)[pid := (g, snd (procs s ! pid))]\<rparr>"

text \<open>
  Modelled from the spec: the generator returns, and the termination event of the
  process is scheduled.
\<close>

definition terminate :: "nat \<Rightarrow> state \<Rightarrow> state" where
  "terminate pid s =
     schedule (Process, snd (procs s ! pid)) NORMAL 0 (suspend pid Finished s)"

text \<open>
  Modelled from the spec: a granted request is scheduled as an event at the current
  time; its callbacks resume the requester.
\<close>

definition succeed :: "request option \<Rightarrow> state \<Rightarrow> state" where
  "succeed g s = (case g of None \<Rightarrow> s | Some q \<Rightarrow> schedule (Request, snd q) NORMAL 0 s)"

definition set_doctor :: "nat \<Rightarrow> resource \<Rightarrow> state \<Rightarrow> state" where
  "set_doctor h r s =
     s\<lparr>hospitals := (hospitals s)[h := (hospitals s ! h)\<lparr>doctor := r\<rparr>]\<rparr>"

text \<open>
  \<open>hospital.doctor.request()\<close>: a new request on the doctors of hospital \<open>h\<close>; \<open>cbs\<close>
  holds the resumption of the process that awaits it (none for a request nobody
  awaits). The pool is updated in place.
\<close>

definition doctor_request :: "nat \<Rightarrow> callback list \<Rightarrow> state \<Rightarrow> state \<times> request" where
  "doctor_request h cbs s =
     (let q = (rid s, Trigger_get h # cbs) in
      case request (doctor (hospitals s ! h)) q of
        (r, g) \<Rightarrow> (succeed g (set_doctor h r (s\<lparr>rid := Suc (rid s)\<rparr>)), q))"

text \<open>
  Leaving the \<open>with\<close> block of a granted request releases it: the slot is freed and
  the release event is scheduled, whose callback grants the slot to the next waiter.
\<close>

definition doctor_release :: "nat \<Rightarrow> request \<Rightarrow> state \<Rightarrow> state" where
  "doctor_release h q s =
     schedule (Release, [Trigger_put h]) NORMAL 0
       (set_doctor h (release (doctor (hospitals s ! h)) q) s)"

definition doctor_trigger_put :: "nat \<Rightarrow> state \<Rightarrow> state" where
  "doctor_trigger_put h s =
     (case trigger_put (doctor (hospitals s ! h)) of
        (r, g) \<Rightarrow> succeed g (set_doctor h r s))"

subsection \<open>The processes of the scripts\<close>

text \<open>
  \<open>patient(env, name, hospital)\<close> (DTA1.py, lines 33-53), one definition for each
  stretch of the generator between two suspensions. From its start to
  \<open>yield request\<close>:
\<close>

definition patient_arrives :: "nat \<Rightarrow> nat \<Rightarrow> nat \<Rightarrow> state \<Rightarrow> error + state" where
  "patient_arrives pid name h s =
     (let s1 = s\<lparr>console := console s @ [Arrives name (now s)],
                  arrival_times := arrival_times s @ [now s]\<rparr>
      in case doctor_request h [Resume pid] s1 of
           (s2, q) \<Rightarrow> Inr (suspend pid (Patient_request name h q) s2))"

text \<open>
  From the grant of the request to the \<open>yield\<close> on the treatment, or to the end of the
  generator when the patient leaves. \<open>arrival_times[-1]\<close> raises on an empty list.
\<close>

definition patient_granted ::
  "config \<Rightarrow> random_source \<Rightarrow> nat \<Rightarrow> nat \<Rightarrow> nat \<Rightarrow> request \<Rightarrow> state \<Rightarrow> error + state" where
  "patient_granted cfg rs pid name h q s =
     (if arrival_times s = [] then Inl IndexError
      else
        let wait_time = now s - last (arrival_times s);
            s1 = s\<lparr>wait_times := wait_times s @ [wait_time]\<rparr>;
            u = random rs (draws s1);
            s2 = s1\<lparr>draws := Suc (draws s1)\<rparr>
        in if u < TREAT_PROBABILITY cfg
           then Inr (suspend pid (Patient_treat name h q)
                       (process (Treat_start h name) [Resume pid] s2))
           else
             let s3 = s2\<lparr>console := console s2 @ [Leaves_untreated name (now s2)],
                          left_without_treatment_times :=
                            left_without_treatment_times s2 @ [now s2]\<rparr>
             in Inr (terminate pid (doctor_release h q s3)))"

text \<open>From the end of the treatment to the end of the generator.\<close>

definition patient_treated :: "nat \<Rightarrow> nat \<Rightarrow> nat \<Rightarrow> request \<Rightarrow> state \<Rightarrow> error + state" where
  "patient_treated pid name h q s =
     (let s1 = s\<lparr>console := console s @ [Leaves_treated name (now s)],
                  treated_times := treated_times s @ [now s]\<rparr>
      in Inr (terminate pid (doctor_release h q s1)))"

text \<open>\<open>Hospital.treat(self, patient)\<close> (DTA1.py, lines 26-30).\<close>

definition treat_start :: "random_source \<Rightarrow> nat \<Rightarrow> nat \<Rightarrow> nat \<Rightarrow> state \<Rightarrow> error + state" where
  "treat_start rs pid h name s =
     (let tt = treatment_time (hospitals s ! h) in
      if tt = 0 then Inl ZeroDivisionError
      else
        let treatment_duration = expovariate rs (draws s) (1 / tt);
            s1 = s\<lparr>draws := Suc (draws s)\<rparr>
        in case timeout treatment_duration [Resume pid] s1 of
             Inl e \<Rightarrow> Inl e
           | Inr s2 \<Rightarrow> Inr (suspend pid (Treat_timeout h name treatment_duration) s2))"

definition treat_done :: "nat \<Rightarrow> nat \<Rightarrow> rat \<Rightarrow> state \<Rightarrow> error + state" where
  "treat_done pid name treatment_duration s =
     Inr (terminate pid (s\<lparr>console := console s @ [Was_treated name treatment_duration]\<rparr>))"

text \<open>
  \<open>setup(env, num_doctors, treatment_time, t_inter)\<close> (DTA1.py, lines 56-70). The body
  of the \<open>while True\<close> loop up to its \<open>yield\<close>:
\<close>

definition setup_wait :: "random_source \<Rightarrow> nat \<Rightarrow> nat \<Rightarrow> nat \<Rightarrow> rat \<Rightarrow> state \<Rightarrow> error + state" where
  "setup_wait rs pid h i t_inter s =
     (if t_inter = 0 then Inl ZeroDivisionError
      else
        let inter_arrival_time = expovariate rs (draws s) (1 / t_inter);
            s1 = s\<lparr>draws := Suc (draws s)\<rparr>
        in case timeout inter_arrival_time [Resume pid] s1 of
             Inl e \<Rightarrow> Inl e
           | Inr s2 \<Rightarrow> Inr (suspend pid (Setup_loop h i t_inter inter_arrival_time) s2))"

definition setup_start ::
  "random_source \<Rightarrow> nat \<Rightarrow> int \<Rightarrow> rat \<Rightarrow> rat \<Rightarrow> state \<Rightarrow> error + state" where
  "setup_start rs pid num_doctors tt t_inter s =
     (case Resource num_doctors of
        Inl e \<Rightarrow> Inl e
      | Inr r \<Rightarrow>
          let h = length (hospitals s);
              s1 = s\<lparr>hospitals := hospitals s @ [\<lparr>doctor = r, treatment_time = tt\<rparr>]\<rparr>;
              s2 = foldl (\<lambda>s' i. process (Patient_start i h) [] s') s1 [1, 2, 3, 4]
          in setup_wait rs pid h 5 t_inter s2)"

definition setup_resumed ::
  "random_source \<Rightarrow> nat \<Rightarrow> nat \<Rightarrow> nat \<Rightarrow> rat \<Rightarrow> rat \<Rightarrow> state \<Rightarrow> error + state" where
  "setup_resumed rs pid h i t_inter inter_arrival_time s =
     (let s1 = s\<lparr>console := console s @ [Arrives_after i inter_arrival_time]\<rparr>;
          s2 = process (Patient_start i h) [] s1
      in setup_wait rs pid h (i + 1) t_inter s2)"

text \<open>
  \<open>add_doctors(env, hospital, num_doctors_to_add)\<close> (DTA1.py, lines 73-79; dta.py,
  lines 72-79): one iteration of the \<open>for\<close> loop makes a request that nobody awaits
  and nobody releases, then waits for a timeout of zero; \<open>k\<close> iterations are left.
\<close>

definition add_doctors_loop :: "nat \<Rightarrow> nat \<Rightarrow> nat \<Rightarrow> state \<Rightarrow> error + state" where
  "add_doctors_loop pid h k s =
     (if k = 0 then Inr (terminate pid s)
      else
        case doctor_request h [] s of
          (s1, q) \<Rightarrow>
            (case timeout 0 [Resume pid] s1 of
               Inl e \<Rightarrow> Inl e
             | Inr s2 \<Rightarrow> Inr (suspend pid (Add_doctors_loop h (k - 1)) s2)))"

definition add_doctors :: "nat \<Rightarrow> nat \<Rightarrow> nat \<Rightarrow> state \<Rightarrow> error + state" where
  "add_doctors pid h num_doctors_to_add s =
     add_doctors_loop pid h num_doctors_to_add
       (s\<lparr>console := console s @ [Adding num_doctors_to_add (now s)]\<rparr>)"

subsection \<open>Processing events\<close>

text \<open>
  Modelled from the spec: resuming a process continues its generator from where it is
  suspended. An exception in a generator ends the run (the library re-raises it from
  \<open>env.run\<close>). A callback always names a process that exists; the test of \<open>pid\<close>
  only makes the function total.
\<close>

definition resume :: "config \<Rightarrow> random_source \<Rightarrow> nat \<Rightarrow> state \<Rightarrow> error + state" where
  "resume cfg rs pid s =
     (if length (procs s) \<le> pid then Inr s else
      case fst (procs s ! pid) of
        Setup_start num_doctors tt t_inter \<Rightarrow> setup_start rs pid num_doctors tt t_inter s
      | Setup_loop h i t_inter d \<Rightarrow> setup_resumed rs pid h i t_inter d s
      | Patient_start name h \<Rightarrow> patient_arrives pid name h s
      | Patient_request name h q \<Rightarrow> patient_granted cfg rs pid name h q s
      | Patient_treat name h q \<Rightarrow> patient_treated pid name h q s
      | Treat_start h name \<Rightarrow> treat_start rs pid h name s
      | Treat_timeout h name d \<Rightarrow> treat_done pid name d s
      | Add_doctors_start h n \<Rightarrow> add_doctors pid h n s
      | Add_doctors_loop h k \<Rightarrow> add_doctors_loop pid h k s
      | Finished \<Rightarrow> Inr s)"

text \<open>
  Modelled from the spec: the callbacks of an event run in order. The result says
  whether the simulation was stopped (by the callback of the \<open>until\<close> event). The
  callback of a request that looks for pending releases finds none: a release is
  carried out when it is made.
\<close>

fun run_callbacks ::
  "config \<Rightarrow> random_source \<Rightarrow> callback list \<Rightarrow> state \<Rightarrow> error + (bool \<times> state)" where
  "run_callbacks cfg rs [] s = Inr (False, s)"
| "run_callbacks cfg rs (Stop_simulation # cs) s = Inr (True, s)"
| "run_callbacks cfg rs (Resume pid # cs) s =
     (case resume cfg rs pid s of
        Inl e \<Rightarrow> Inl e
      | Inr s' \<Rightarrow> run_callbacks cfg rs cs s')"
| "run_callbacks cfg rs (Trigger_put h # cs) s = run_callbacks cfg rs cs (doctor_trigger_put h s)"
| "run_callbacks cfg rs (Trigger_get h # cs) s = run_callbacks cfg rs cs s"

text \<open>
  Modelled from the spec: \<open>env.step()\<close> pops the next event, moves the clock to its
  time and runs its callbacks. With an empty heap the run ends.
\<close>

definition step :: "config \<Rightarrow> random_source \<Rightarrow> state \<Rightarrow> error + (bool \<times> state)" where
  "step cfg rs s =
     (case heappop (queue s) of
        None \<Rightarrow> Inr (True, s)
      | Some ((t, p, i, k, cbs), q) \<Rightarrow> run_callbacks cfg rs cbs (s\<lparr>now := t, queue := q\<rparr>))"

text \<open>
  Modelled from the spec: the start of \<open>env.run(until=t)\<close> schedules the urgent
  \<open>until\<close> event at time \<open>t\<close>, which must lie in the future.
\<close>

definition run_until :: "rat \<Rightarrow> state \<Rightarrow> error + state" where
  "run_until t s =
     (if t \<le> now s then Inl ValueError
      else Inr (schedule (Until, [Stop_simulation]) URGENT (t - now s) s))"

subsection \<open>The script\<close>

text \<open>
  The module-level statements of DTA1.py, lines 83-92: the module's own \<open>Hospital\<close>
  (object 0), the \<open>setup\<close> process (which makes a \<open>Hospital\<close> of its own for the
  patients), the first run, the \<open>add_doctors\<close> process on the module's hospital and
  the second run until 200. \<open>exec cfg rs n\<close> is the state after \<open>n\<close> events.
\<close>

datatype phase = First_run | Second_run | Report

definition start :: "config \<Rightarrow> error + (phase \<times> state)" where
  "start cfg =
     (case Resource (NUM_DOCTORS cfg) of
        Inl e \<Rightarrow> Inl e
      | Inr r \<Rightarrow>
          let s0 = \<lparr>now = 0, eid = 0, queue = [], procs = [],
                    hospitals = [\<lparr>doctor = r, treatment_time = TREATMENT_TIME cfg\<rparr>],
                    rid = 0, draws = 0, arrival_times = [], treated_times = [],
                    left_without_treatment_times = [], wait_times = [], console = []\<rparr>;
              s1 = process (Setup_start (NUM_DOCTORS cfg) (TREATMENT_TIME cfg) (T_INTER cfg)) [] s0
          in case run_until (SIM_TIME cfg) s1 of
               Inl e \<Rightarrow> Inl e
             | Inr s2 \<Rightarrow> Inr (First_run, s2))"

definition script_step ::
  "config \<Rightarrow> random_source \<Rightarrow> phase \<times> state \<Rightarrow> error + (phase \<times> state)" where
  "script_step cfg rs ps =
     (case ps of
        (Report, s) \<Rightarrow> Inr (Report, s)
      | (First_run, s) \<Rightarrow>
          (case step cfg rs s of
             Inl e \<Rightarrow> Inl e
           | Inr (False, s') \<Rightarrow> Inr (First_run, s')
           | Inr (True, s') \<Rightarrow>
               (case run_until 200 (process (Add_doctors_start 0 2) [] s') of
                  Inl e \<Rightarrow> Inl e
                | Inr s'' \<Rightarrow> Inr (Second_run, s'')))
      | (Second_run, s) \<Rightarrow>
          (case step cfg rs s of
             Inl e \<Rightarrow> Inl e
           | Inr (False, s') \<Rightarrow> Inr (Second_run, s')
           | Inr (True, s') \<Rightarrow> Inr (Report, s')))"

fun exec :: "config \<Rightarrow> random_source \<Rightarrow> nat \<Rightarrow> error + (phase \<times> state)" where
  "exec cfg rs 0 = start cfg"
| "exec cfg rs (Suc n) =
     (case exec cfg rs n of
        Inl e \<Rightarrow> Inl e
      | Inr ps \<Rightarrow> script_step cfg rs ps)"

definition DTA1 :: config where
  "DTA1 = \<lparr>NUM_DOCTORS = 2, TREATMENT_TIME = 5, T_INTER = 7, SIM_TIME = 100,
           TREAT_PROBABILITY = 8 / 10\<rparr>"

subsection \<open>The report of the script\<close>

text \<open>
  \<open>average_wait_time = sum(wait_times) / len(wait_times) if wait_times else float('inf')\<close>
  (DTA1.py, line 121). A Python float is a finite value or an infinity; the division
  raises on a zero divisor.
\<close>

datatype pyfloat = Finite rat | Inf

definition py_truediv :: "rat \<Rightarrow> nat \<Rightarrow> error + pyfloat" where
  "py_truediv a n = (if n = 0 then Inl ZeroDivisionError else Inr (Finite (a / of_nat n)))"

definition average_wait_time :: "rat list \<Rightarrow> error + pyfloat" where
  "average_wait_time ws =
     (if ws \<noteq> [] then py_truediv (sum_list ws) (length ws) else Inr Inf)"

subsection \<open>Sequences of pool operations\<close>

text \<open>
  The operations that reach a pool, in any order: a request, the freeing of a slot by a
  release, the processing of a release event (which grants the freed slot), and the
  spec's \<open>expand\<close>. A history keeps, beside the pool, the requests in the order they
  were made and the grants in the order they were given.
\<close>

datatype pool_op = Acquire request | Release_slot request | Release_processed | Expand nat

record history =
  pool :: resource
  requested :: "request list"
  granted :: "request list"

definition grants :: "request option \<Rightarrow> request list" where
  "grants g = (case g of None \<Rightarrow> [] | Some q \<Rightarrow> [q])"

fun apply_op :: "history \<Rightarrow> pool_op \<Rightarrow> history" where
  "apply_op x (Acquire q) =
     (case request (pool x) q of
        (r, g) \<Rightarrow> x\<lparr>pool := r, requested := requested x @ [q], granted := granted x @ grants g\<rparr>)"
| "apply_op x (Release_slot q) = x\<lparr>pool := release (pool x) q\<rparr>"
| "apply_op x Release_processed =
     (case trigger_put (pool x) of (r, g) \<Rightarrow> x\<lparr>pool := r, granted := granted x @ grants g\<rparr>)"
| "apply_op x (Expand n) =
     (case expand n (pool x) of (r, gs) \<Rightarrow> x\<lparr>pool := r, granted := granted x @ gs\<rparr>)"

definition new_pool :: "nat \<Rightarrow> history" where
  "new_pool c = \<lparr>pool = \<lparr>capacity = c, users = [], put_queue = []\<rparr>, requested = [], granted = []\<rparr>"

definition run_ops :: "nat \<Rightarrow> pool_op list \<Rightarrow> history" where
  "run_ops c ops = foldl apply_op (new_pool c) ops"

subsection \<open>Invariants of a run\<close>

text \<open>
  No event of the heap lies in the past, every recorded arrival time is at most the
  clock, and every recorded wait time is at least zero.
\<close>

definition timely :: "state \<Rightarrow> bool" where
  "timely s =
     ((\<forall>e \<in> set (queue s). now s \<le> fst e)
      \<and> (\<forall>t \<in> set (arrival_times s). t \<le> now s)
      \<and> (\<forall>w \<in> set (wait_times s). 0 \<le> w))"

text \<open>A stretch of a process keeps the clock, and keeps the state timely.\<close>

definition keeps :: "state \<Rightarrow> state \<Rightarrow> bool" where
  "keeps s s' = (now s' = now s \<and> (timely s \<longrightarrow> timely s'))"

subsection \<open>Random sources for the examples\<close>

text \<open>
  Every patient is treated (\<open>random.random()\<close> gives 0.5); the first inter-arrival
  time is 3, the treatments of patients 1 and 2 last 4 and 10, all other draws are 1000.
\<close>

definition rs_queue :: random_source where
  "rs_queue =
     \<lparr>random = (\<lambda>i. 1 / 2),
      expovariate = (\<lambda>i lambd. if i = 0 then 3 else if i = 2 then 4 else if i = 4 then 10 else 1000)\<rparr>"

subsection \<open>Counting patients\<close>

text \<open>
  A patient is in flight from its arrival to its resolution: it waits for a doctor
  or is being treated. A patient is unresolved while its generator has not returned.
  The tally of a state is the number of arrivals minus the patients treated, the
  patients who left and the patients in flight.
\<close>

fun in_flight :: "generator \<Rightarrow> bool" where
  "in_flight (Patient_request name h q) = True"
| "in_flight (Patient_treat name h q) = True"
| "in_flight g = False"

fun unresolved :: "generator \<Rightarrow> bool" where
  "unresolved (Patient_start name h) = True"
| "unresolved (Patient_request name h q) = True"
| "unresolved (Patient_treat name h q) = True"
| "unresolved g = False"

definition flying :: "state \<Rightarrow> nat" where
  "flying s = length (filter (\<lambda>p. in_flight (fst p)) (procs s))"

definition tally :: "state \<Rightarrow> int" where
  "tally s = int (length (arrival_times s)) - int (length (treated_times s))
     - int (length (left_without_treatment_times s)) - int (flying s)"

definition total_patients :: "state \<Rightarrow> nat" where
  "total_patients s = length (arrival_times s)"

definition treated_count :: "state \<Rightarrow> nat" where
  "treated_count s = length (treated_times s)"

definition left_without_treatment_count :: "state \<Rightarrow> nat" where
  "left_without_treatment_count s = length (left_without_treatment_times s)"

text \<open>
  The counts of the report of DTA1.py, lines 118-120; dta.py, lines 116-119, takes the
  total to be the sum of the two other counts.
\<close>

definition dta_total_patients :: "state \<Rightarrow> nat" where
  "dta_total_patients s = 0 + (treated_count s + left_without_treatment_count s)"

text \<open>
  The capacities of the pools, and the stretches of a run that change neither them
  nor the processes nor the recorded times.
\<close>

definition capacities :: "state \<Rightarrow> nat list" where
  "capacities s = map (\<lambda>h. capacity (doctor h)) (hospitals s)"

definition unchanged :: "state \<Rightarrow> state \<Rightarrow> bool" where
  "unchanged s s' = (procs s' = procs s \<and> arrival_times s' = arrival_times s
     \<and> treated_times s' = treated_times s
     \<and> left_without_treatment_times s' = left_without_treatment_times s
     \<and> wait_times s' = wait_times s \<and> capacities s' = capacities s)"

subsection \<open>Runs without treatment, and the number of doctors\<close>

text \<open>
  The generators of a treatment: a patient that awaits its treatment, and
  \<open>Hospital.treat\<close> itself, which draws the duration of the treatment when it starts.
  In an untreated state no patient was treated, no treatment is under way, and as
  many patients have left as were granted a doctor.
\<close>

fun treating :: "generator \<Rightarrow> bool" where
  "treating (Patient_treat name h q) = True"
| "treating (Treat_start h name) = True"
| "treating (Treat_timeout h name d) = True"
| "treating g = False"

definition untreated :: "state \<Rightarrow> bool" where
  "untreated s =
     (treated_times s = [] \<and> (\<forall>p \<in> set (procs s). \<not> treating (fst p))
      \<and> length (left_without_treatment_times s) = length (wait_times s))"

text \<open>
  In a staffed state every pool has the capacity \<open>NUM_DOCTORS\<close>, which is also
  what a \<open>setup\<close> process that has not started will give its pool.
\<close>

fun setup_with :: "int \<Rightarrow> generator \<Rightarrow> bool" where
  "setup_with n (Setup_start num_doctors tt t_inter) = (num_doctors = n)"
| "setup_with n g = True"

definition staffed :: "config \<Rightarrow> state \<Rightarrow> bool" where
  "staffed cfg s =
     ((\<forall>c \<in> set (capacities s). c = nat (NUM_DOCTORS cfg))
      \<and> (\<forall>p \<in> set (procs s). setup_with (NUM_DOCTORS cfg) (fst p)))"

text \<open>
  Patient 1 is treated for 4 minutes and the three others leave at once; no further
  patient arrives before time 1000.
\<close>

definition rs_mixed :: random_source where
  "rs_mixed =
     \<lparr>random = (\<lambda>i. if i = 1 then 1 / 2 else 9 / 10),
      expovariate = (\<lambda>i lambd. if i = 2 then 4 else 1000)\<rparr>"

text \<open>The scenario of section 8 with one doctor and no treatment.\<close>

definition never_treat :: config where
  "never_treat = DTA1\<lparr>NUM_DOCTORS := 1, TREAT_PROBABILITY := 0\<rparr>"

subsection \<open>The pools of a run\<close>

text \<open>In a bounded state no pool has more slots in use than its capacity.\<close>

definition bounded :: "state \<Rightarrow> bool" where
  "bounded s = (\<forall>h \<in> set (hospitals s). in_use (doctor h) \<le> capacity (doctor h))"

section \<open>Properties\<close>

subsection \<open>The report\<close>

text \<open>
  C7: over an empty collection of wait times the average is the infinity sentinel
  \<open>float('inf')\<close>; it is not an exception and not the number 0. (On a collection that
  is not empty the expression does not raise either.)
\<close>

theorem average_wait_time_empty:
  "average_wait_time [] = Inr Inf
   \<and> average_wait_time [] \<noteq> Inl ZeroDivisionError
   \<and> average_wait_time [] \<noteq> Inr (Finite 0)
   \<and> (\<exists>v. average_wait_time ws = Inr v)"
  by (simp add: average_wait_time_def py_truediv_def)

subsection \<open>The resource pool\<close>

lemma request_acquire: "settled r \<Longrightarrow> request r q = acquire r q"
  by (auto simp: settled_def request_def acquire_def trigger_put_def in_use_def
      split: list.splits)

lemma settled_request: "settled r \<Longrightarrow> settled (fst (request r q))"
  by (auto simp: settled_def request_def trigger_put_def in_use_def split: list.splits)

lemma settled_release_and_grant:
  "settled r \<Longrightarrow> in_use r \<le> capacity r \<Longrightarrow> settled (fst (release_and_grant r q))"
  by (auto simp: settled_def release_and_grant_def release_def trigger_put_def in_use_def
      length_remove1 split: list.splits dest: length_pos_if_in_set)

lemma settled_grant_waiting:
  "length (put_queue r) \<le> n \<Longrightarrow> settled (fst (grant_waiting n r))"
proof (induction n arbitrary: r)
  case 0
  then show ?case by (simp add: settled_def)
next
  case (Suc n)
  show ?case
  proof (cases "put_queue r")
    case Nil
    then show ?thesis by (simp add: trigger_put_def settled_def)
  next
    case (Cons q qs)
    show ?thesis
    proof (cases "length (users r) < capacity r")
      case True
      let ?r' = "r\<lparr>users := users r @ [q], put_queue := qs\<rparr>"
      from Cons Suc.prems have "length (put_queue ?r') \<le> n" by simp
      from Suc.IH [OF this] Cons True show ?thesis
        by (auto simp: trigger_put_def split: prod.splits)
    next
      case False
      with Cons show ?thesis by (simp add: trigger_put_def settled_def in_use_def)
    qed
  qed
qed

lemma settled_expand: "settled (fst (expand n r))"
  unfolding expand_def Let_def by (rule settled_grant_waiting) simp

lemma trigger_put_bound:
  "in_use r \<le> capacity r \<Longrightarrow> in_use (fst (trigger_put r)) \<le> capacity (fst (trigger_put r))"
  by (simp add: trigger_put_def in_use_def split: list.splits)

lemma request_bound:
  "in_use r \<le> capacity r \<Longrightarrow> in_use (fst (request r q)) \<le> capacity (fst (request r q))"
  unfolding request_def by (rule trigger_put_bound) (simp add: in_use_def)

lemma release_bound:
  "in_use r \<le> capacity r \<Longrightarrow> in_use (release r q) \<le> capacity (release r q)"
  by (auto simp: release_def in_use_def length_remove1)

lemma grant_waiting_bound:
  "in_use r \<le> capacity r \<Longrightarrow>
   in_use (fst (grant_waiting n r)) \<le> capacity (fst (grant_waiting n r))"
proof (induction n arbitrary: r)
  case 0
  then show ?case by simp
next
  case (Suc n)
  obtain r' g where t: "trigger_put r = (r', g)" by (cases "trigger_put r")
  with trigger_put_bound [OF Suc.prems] have b: "in_use r' \<le> capacity r'" by simp
  show ?case
  proof (cases g)
    case None
    with t b show ?thesis by simp
  next
    case (Some q)
    with t Suc.IH [OF b] show ?thesis by (auto split: prod.splits)
  qed
qed

lemma expand_bound:
  "in_use r \<le> capacity r \<Longrightarrow> in_use (fst (expand n r)) \<le> capacity (fst (expand n r))"
  unfolding expand_def Let_def by (rule grant_waiting_bound) (simp add: in_use_def)

lemma apply_op_bound:
  "in_use (pool x) \<le> capacity (pool x) \<Longrightarrow>
   in_use (pool (apply_op x a)) \<le> capacity (pool (apply_op x a))"
proof (cases a)
  case (Acquire q)
  assume "in_use (pool x) \<le> capacity (pool x)"
  from request_bound [OF this, of q] Acquire show ?thesis by (auto split: prod.splits)
next
  case (Release_slot q)
  assume "in_use (pool x) \<le> capacity (pool x)"
  from release_bound [OF this, of q] Release_slot show ?thesis by simp
next
  case Release_processed
  assume "in_use (pool x) \<le> capacity (pool x)"
  from trigger_put_bound [OF this] Release_processed show ?thesis by (auto split: prod.splits)
next
  case (Expand n)
  assume "in_use (pool x) \<le> capacity (pool x)"
  from expand_bound [OF this, of n] Expand show ?thesis by (auto split: prod.splits)
qed

lemma foldl_apply_op_bound:
  "in_use (pool x) \<le> capacity (pool x) \<Longrightarrow>
   in_use (pool (foldl apply_op x ops)) \<le> capacity (pool (foldl apply_op x ops))"
  by (induction ops arbitrary: x) (simp_all add: apply_op_bound)

text \<open>
  C2: from a new pool of any capacity, after every sequence of requests, releases and
  expansions, the number of slots in use is at most the capacity.
\<close>

theorem in_use_le_capacity:
  "in_use (pool (run_ops c ops)) \<le> capacity (pool (run_ops c ops))"
  unfolding run_ops_def by (rule foldl_apply_op_bound) (simp add: new_pool_def in_use_def)

lemma trigger_put_fifo:
  "trigger_put r = (r', g) \<Longrightarrow> grants g @ put_queue r' = put_queue r"
  by (auto simp: trigger_put_def grants_def split: list.splits if_splits)

lemma request_fifo:
  "request r q = (r', g) \<Longrightarrow> grants g @ put_queue r' = put_queue r @ [q]"
  unfolding request_def by (drule trigger_put_fifo) simp

lemma grant_waiting_fifo:
  "grant_waiting n r = (r', gs) \<Longrightarrow> gs @ put_queue r' = put_queue r"
proof (induction n arbitrary: r r' gs)
  case 0
  then show ?case by simp
next
  case (Suc n)
  obtain r1 g where t: "trigger_put r = (r1, g)" by (cases "trigger_put r")
  note f = trigger_put_fifo [OF t]
  show ?case
  proof (cases g)
    case None
    with t Suc.prems f show ?thesis by (simp add: grants_def)
  next
    case (Some q)
    obtain r2 qs where g: "grant_waiting n r1 = (r2, qs)" by (cases "grant_waiting n r1")
    from Suc.IH [OF g] f Some t g Suc.prems show ?thesis by (auto simp: grants_def)
  qed
qed

lemma expand_fifo: "expand n r = (r', gs) \<Longrightarrow> gs @ put_queue r' = put_queue r"
  unfolding expand_def Let_def by (drule grant_waiting_fifo) simp

lemma apply_op_fifo:
  "granted x @ put_queue (pool x) = requested x \<Longrightarrow>
   granted (apply_op x a) @ put_queue (pool (apply_op x a)) = requested (apply_op x a)"
proof (cases a)
  case (Acquire q)
  assume i: "granted x @ put_queue (pool x) = requested x"
  obtain r g where e: "request (pool x) q = (r, g)" by (cases "request (pool x) q")
  from request_fifo [OF e] i e Acquire show ?thesis by (simp flip: append_assoc) (simp)
next
  case (Release_slot q)
  assume "granted x @ put_queue (pool x) = requested x"
  with Release_slot show ?thesis by (simp add: release_def)
next
  case Release_processed
  assume i: "granted x @ put_queue (pool x) = requested x"
  obtain r g where e: "trigger_put (pool x) = (r, g)" by (cases "trigger_put (pool x)")
  from trigger_put_fifo [OF e] i e Release_processed show ?thesis by simp
next
  case (Expand n)
  assume i: "granted x @ put_queue (pool x) = requested x"
  obtain r gs where e: "expand n (pool x) = (r, gs)" by (cases "expand n (pool x)")
  from expand_fifo [OF e] i e Expand show ?thesis by simp
qed

lemma foldl_apply_op_fifo:
  "granted x @ put_queue (pool x) = requested x \<Longrightarrow>
   granted (foldl apply_op x ops) @ put_queue (pool (foldl apply_op x ops))
     = requested (foldl apply_op x ops)"
  by (induction ops arbitrary: x) (simp_all add: apply_op_fifo)

text \<open>
  C3: slots are granted in the order of the requests. After every sequence of
  operations on a new pool, the grants given so far followed by the requests still
  waiting are the requests made, in the order they were made: each grant goes to the
  request that has waited longest, and requests made at the same time are served in
  the order of their insertion.
\<close>

theorem grants_in_request_order:
  "granted (run_ops c ops) @ put_queue (pool (run_ops c ops)) = requested (run_ops c ops)"
  unfolding run_ops_def by (rule foldl_apply_op_fifo) (simp add: new_pool_def)

lemma grants_example: "granted (run_ops 1 [Acquire (0, []), Acquire (1, []), Acquire (2, []), Release_slot (0, []),
    Release_processed, Release_slot (1, []), Acquire (3, []), Release_processed]) = [(0, []), (1, []), (2, [])]"
  by (simp add: run_ops_def new_pool_def request_def trigger_put_def release_def grants_def)

subsection \<open>The clock and the recorded times\<close>

lemma keeps_refl: "keeps s s"
  by (simp add: keeps_def)

lemma keeps_schedule: "0 \<le> d \<Longrightarrow> keeps s0 s \<Longrightarrow> keeps s0 (schedule ev p d s)"
  by (auto simp: keeps_def timely_def schedule_def)

lemma keeps_timeout: "timeout d cbs s = Inr s' \<Longrightarrow> keeps s0 s \<Longrightarrow> keeps s0 s'"
  by (auto simp: timeout_def keeps_schedule split: if_splits)

lemma keeps_procs: "keeps s0 s \<Longrightarrow> keeps s0 (s\<lparr>procs := ps\<rparr>)"
  by (auto simp: keeps_def timely_def)

lemma keeps_process: "keeps s0 s \<Longrightarrow> keeps s0 (process g cbs s)"
  unfolding process_def by (intro keeps_schedule keeps_procs) simp_all

lemma keeps_suspend: "keeps s0 s \<Longrightarrow> keeps s0 (suspend pid g s)"
  unfolding suspend_def by (rule keeps_procs)

lemma keeps_terminate: "keeps s0 s \<Longrightarrow> keeps s0 (terminate pid s)"
  unfolding terminate_def by (intro keeps_schedule keeps_suspend) simp_all

lemma keeps_succeed: "keeps s0 s \<Longrightarrow> keeps s0 (succeed g s)"
  unfolding succeed_def by (cases g) (simp_all add: keeps_schedule)

lemma keeps_set_doctor: "keeps s0 s \<Longrightarrow> keeps s0 (set_doctor h r s)"
  by (auto simp: keeps_def timely_def set_doctor_def)

lemma keeps_rid: "keeps s0 s \<Longrightarrow> keeps s0 (s\<lparr>rid := n\<rparr>)"
  by (auto simp: keeps_def timely_def)

lemma keeps_doctor_request:
  "doctor_request h cbs s = (s', q) \<Longrightarrow> keeps s0 s \<Longrightarrow> keeps s0 s'"
  by (auto simp: doctor_request_def Let_def split: prod.splits
           intro!: keeps_succeed keeps_set_doctor keeps_rid)

lemma keeps_doctor_release: "keeps s0 s \<Longrightarrow> keeps s0 (doctor_release h q s)"
  unfolding doctor_release_def by (intro keeps_schedule keeps_set_doctor) simp_all

lemma keeps_doctor_trigger_put: "keeps s0 s \<Longrightarrow> keeps s0 (doctor_trigger_put h s)"
  by (auto simp: doctor_trigger_put_def split: prod.splits
           intro!: keeps_succeed keeps_set_doctor)

lemma keeps_console: "keeps s0 s \<Longrightarrow> keeps s0 (s\<lparr>console := c\<rparr>)"
  by (auto simp: keeps_def timely_def)

lemma keeps_draws: "keeps s0 s \<Longrightarrow> keeps s0 (s\<lparr>draws := c\<rparr>)"
  by (auto simp: keeps_def timely_def)

lemma keeps_hospitals: "keeps s0 s \<Longrightarrow> keeps s0 (s\<lparr>hospitals := c\<rparr>)"
  by (auto simp: keeps_def timely_def)

lemma keeps_treated: "keeps s0 s \<Longrightarrow> keeps s0 (s\<lparr>treated_times := c\<rparr>)"
  by (auto simp: keeps_def timely_def)

lemma keeps_left: "keeps s0 s \<Longrightarrow> keeps s0 (s\<lparr>left_without_treatment_times := c\<rparr>)"
  by (auto simp: keeps_def timely_def)

lemma keeps_arrival:
  "keeps s0 s \<Longrightarrow> keeps s0 (s\<lparr>arrival_times := arrival_times s @ [now s]\<rparr>)"
  by (auto simp: keeps_def timely_def)

lemma keeps_wait:
  "keeps s0 s \<Longrightarrow> arrival_times s \<noteq> [] \<Longrightarrow>
   keeps s0 (s\<lparr>wait_times := wait_times s @ [now s - last (arrival_times s)]\<rparr>)"
  by (auto simp: keeps_def timely_def)

lemma keeps_patient_arrives: "patient_arrives pid name h s = Inr s' \<Longrightarrow> keeps s s'"
  unfolding patient_arrives_def Let_def
  apply (clarsimp split: prod.splits)
  apply (rule keeps_suspend)
  apply (erule keeps_doctor_request)
  apply (auto simp: keeps_def timely_def)
  done

lemma keeps_patient_granted: "patient_granted cfg rs pid name h q s = Inr s' \<Longrightarrow> keeps s s'"
  unfolding patient_granted_def Let_def
  apply (clarsimp split: if_splits)
   apply (intro keeps_suspend keeps_process)
   apply (auto simp: keeps_def timely_def)[1]
  apply (intro keeps_terminate keeps_doctor_release)
  apply (auto simp: keeps_def timely_def)
  done

lemma keeps_patient_treated: "patient_treated pid name h q s = Inr s' \<Longrightarrow> keeps s s'"
  unfolding patient_treated_def Let_def
  apply clarsimp
  apply (intro keeps_terminate keeps_doctor_release)
  apply (auto simp: keeps_def timely_def)
  done

lemma keeps_treat_start: "treat_start rs pid h name s = Inr s' \<Longrightarrow> keeps s s'"
  unfolding treat_start_def Let_def
  apply (clarsimp split: if_splits sum.splits)
  apply (rule keeps_suspend)
  apply (erule keeps_timeout)
  apply (auto simp: keeps_def timely_def)
  done

lemma keeps_treat_done: "treat_done pid name d s = Inr s' \<Longrightarrow> keeps s s'"
  unfolding treat_done_def
  apply clarsimp
  apply (rule keeps_terminate)
  apply (auto simp: keeps_def timely_def)
  done

lemma keeps_setup_wait: "setup_wait rs pid h i t_inter s = Inr s' \<Longrightarrow> keeps s0 s \<Longrightarrow> keeps s0 s'"
  unfolding setup_wait_def Let_def
  apply (clarsimp split: if_splits sum.splits)
  apply (rule keeps_suspend)
  apply (erule keeps_timeout)
  apply (erule keeps_draws)
  done

lemma keeps_setup_start: "setup_start rs pid nd tt t_inter s = Inr s' \<Longrightarrow> keeps s s'"
  unfolding setup_start_def Let_def
  apply (clarsimp split: sum.splits)
  apply (erule keeps_setup_wait)
  apply (intro keeps_process keeps_hospitals keeps_refl)
  done

lemma keeps_setup_resumed: "setup_resumed rs pid h i t_inter d s = Inr s' \<Longrightarrow> keeps s s'"
  unfolding setup_resumed_def Let_def
  apply (erule keeps_setup_wait)
  apply (intro keeps_process keeps_console keeps_refl)
  done

lemma keeps_add_doctors_loop:
  "add_doctors_loop pid h k s = Inr s' \<Longrightarrow> keeps s0 s \<Longrightarrow> keeps s0 s'"
  unfolding add_doctors_loop_def
  apply (clarsimp split: if_splits prod.splits sum.splits)
   apply (erule keeps_terminate)
  apply (rule keeps_suspend)
  apply (erule keeps_timeout)
  apply (erule keeps_doctor_request)
  apply assumption
  done

lemma keeps_add_doctors: "add_doctors pid h n s = Inr s' \<Longrightarrow> keeps s s'"
  unfolding add_doctors_def
  apply (erule keeps_add_doctors_loop)
  apply (intro keeps_console keeps_refl)
  done

lemma keeps_resume: "resume cfg rs pid s = Inr s' \<Longrightarrow> keeps s s'"
  unfolding resume_def
  by (auto split: if_splits generator.splits
      intro: keeps_refl keeps_patient_arrives keeps_patient_granted keeps_patient_treated
        keeps_treat_start keeps_treat_done keeps_setup_start keeps_setup_resumed
        keeps_add_doctors keeps_add_doctors_loop)

lemma keeps_trans: "keeps s0 s1 \<Longrightarrow> keeps s1 s2 \<Longrightarrow> keeps s0 s2"
  by (auto simp: keeps_def)

lemma keeps_run_callbacks:
  "run_callbacks cfg rs cbs s = Inr (b, s') \<Longrightarrow> keeps s s'"
proof (induction cfg rs cbs s rule: run_callbacks.induct)
  case (1 cfg rs s)
  then show ?case by (simp add: keeps_refl)
next
  case (2 cfg rs cs s)
  then show ?case by (simp add: keeps_refl)
next
  case (3 cfg rs pid cs s)
  then obtain s1 where r: "resume cfg rs pid s = Inr s1"
    and c: "run_callbacks cfg rs cs s1 = Inr (b, s')"
    by (auto split: sum.splits)
  from keeps_resume [OF r] "3.IH" [OF r c] show ?case by (rule keeps_trans)
next
  case (4 cfg rs h cs s)
  then have "keeps (doctor_trigger_put h s) s'" by simp
  with keeps_doctor_trigger_put [OF keeps_refl] show ?case by (rule keeps_trans)
next
  case (5 cfg rs h cs s)
  then show ?case by simp
qed

lemma heappop_None: "heappop q = None \<longleftrightarrow> q = []"
  by (cases q) (auto split: option.splits)

lemma heappop_set: "heappop q = Some (m, r) \<Longrightarrow> set q = insert m (set r)"
  by (induction q arbitrary: m r) (auto simp: heappop_None split: option.splits if_splits)

lemma heappop_least: "heappop q = Some (m, r) \<Longrightarrow> e \<in> set r \<Longrightarrow> \<not> key_less e m"
proof (induction q arbitrary: m r e)
  case Nil
  then show ?case by simp
next
  case (Cons a q)
  show ?case
  proof (cases "heappop q")
    case None
    with Cons.prems show ?thesis by simp
  next
    case (Some mr)
    obtain m' r' where mr: "mr = (m', r')" by (cases mr)
    note IH = Cons.IH [OF Some [unfolded mr]]
    have s: "set q = insert m' (set r')" using Some mr by (simp add: heappop_set)
    show ?thesis
    proof (cases "key_less m' a")
      case True
      with Cons.prems Some mr have "m = m'" "r = a # r'" by simp_all
      with Cons.prems True IH show ?thesis by (auto simp: key_less_def)
    next
      case False
      with Cons.prems Some mr have e: "m = a" "r = q" by simp_all
      from Cons.prems(2) e s have "e = m' \<or> e \<in> set r'" by simp
      with False IH e show ?thesis by (fastforce simp: key_less_def)
    qed
  qed
qed

lemma heappop_time:
  "heappop q = Some (m, r) \<Longrightarrow> e \<in> set r \<Longrightarrow> fst m \<le> fst e"
  by (drule (1) heappop_least) (auto simp: key_less_def split: prod.splits)

lemma step_timely:
  assumes "step cfg rs s = Inr (b, s')" and "timely s"
  shows "timely s' \<and> now s \<le> now s'"
proof (cases "heappop (queue s)")
  case None
  with assms show ?thesis by (simp add: step_def)
next
  case (Some mr)
  obtain t p i k cbs r where mr: "mr = ((t, p, i, k, cbs), r)" by (cases mr) auto
  let ?s1 = "s\<lparr>now := t, queue := r\<rparr>"
  from assms(1) Some mr have c: "run_callbacks cfg rs cbs ?s1 = Inr (b, s')"
    by (simp add: step_def)
  from heappop_set [OF Some [unfolded mr]] assms(2) have t: "now s \<le> t"
    by (simp add: timely_def)
  from heappop_time [OF Some [unfolded mr]] have "\<forall>e \<in> set r. t \<le> fst e" by auto
  with t assms(2) heappop_set [OF Some [unfolded mr]] have "timely ?s1"
    by (auto simp: timely_def)
  with keeps_run_callbacks [OF c] t show ?thesis by (simp add: keeps_def)
qed

lemma run_until_timely:
  "run_until t s = Inr s' \<Longrightarrow> timely s \<Longrightarrow> timely s' \<and> now s' = now s"
  using keeps_schedule [OF _ keeps_refl, of "t - now s" s "(Until, [Stop_simulation])" URGENT]
  by (auto simp: run_until_def keeps_def split: if_splits)

lemma start_timely: "start cfg = Inr (ph, s) \<Longrightarrow> timely s"
  apply (clarsimp simp: start_def Let_def split: sum.splits)
  apply (drule run_until_timely)
   apply (rule keeps_process [OF keeps_refl, unfolded keeps_def, THEN conjunct2, rule_format])
   apply (simp add: timely_def)
  apply simp
  done

lemma script_step_timely:
  assumes "script_step cfg rs (ph, s) = Inr (ph', s')" and "timely s"
  shows "timely s' \<and> now s \<le> now s'"
proof (cases ph)
  case First_run
  show ?thesis
  proof (cases "step cfg rs s")
    case (Inl e)
    with assms First_run show ?thesis by (simp add: script_step_def)
  next
    case (Inr bs)
    obtain b s1 where bs: "bs = (b, s1)" by (cases bs)
    note st = step_timely [OF Inr [unfolded bs] assms(2)]
    show ?thesis
    proof (cases b)
      case False
      with assms First_run Inr bs st show ?thesis by (simp add: script_step_def)
    next
      case True
      with assms First_run Inr bs
      have r: "run_until 200 (process (Add_doctors_start 0 2) [] s1) = Inr s'"
        by (simp add: script_step_def split: sum.splits)
      have k: "keeps s1 (process (Add_doctors_start 0 2) [] s1)"
        by (rule keeps_process [OF keeps_refl])
      with st have "timely (process (Add_doctors_start 0 2) [] s1)" by (simp add: keeps_def)
      from run_until_timely [OF r this] k st show ?thesis by (simp add: keeps_def)
    qed
  qed
next
  case Second_run
  show ?thesis
  proof (cases "step cfg rs s")
    case (Inl e)
    with assms Second_run show ?thesis by (simp add: script_step_def)
  next
    case (Inr bs)
    obtain b s1 where bs: "bs = (b, s1)" by (cases bs)
    from step_timely [OF Inr [unfolded bs] assms(2)] assms(1) Second_run Inr bs
    show ?thesis by (cases b) (auto simp: script_step_def)
  qed
next
  case Report
  with assms show ?thesis by (simp add: script_step_def)
qed

lemma exec_timely: "exec cfg rs n = Inr (ph, s) \<Longrightarrow> timely s"
proof (induction n arbitrary: ph s)
  case 0
  then show ?case by (simp add: start_timely)
next
  case (Suc n)
  then obtain ph0 s0 where e: "exec cfg rs n = Inr (ph0, s0)"
    and st: "script_step cfg rs (ph0, s0) = Inr (ph, s)"
    by (auto split: sum.splits)
  from script_step_timely [OF st Suc.IH [OF e]] show ?case by simp
qed

lemma exec_now_mono:
  "exec cfg rs n = Inr (ph, s) \<Longrightarrow> exec cfg rs (n + k) = Inr (ph', s') \<Longrightarrow> now s \<le> now s'"
proof (induction k arbitrary: ph' s')
  case 0
  then show ?case by simp
next
  case (Suc k)
  from Suc.prems(2) obtain ph1 s1 where e: "exec cfg rs (n + k) = Inr (ph1, s1)"
    and st: "script_step cfg rs (ph1, s1) = Inr (ph', s')"
    by (auto split: sum.splits)
  from script_step_timely [OF st exec_timely [OF e]] Suc.IH [OF Suc.prems(1) e]
  show ?case by simp
qed

text \<open>
  C9: the clock of a run never decreases: of two states of the same run, the later one
  has the later or the same time, across the two calls of \<open>env.run\<close> as well.
\<close>

theorem clock_never_decreases:
  "exec cfg rs n = Inr (ph, s) \<Longrightarrow> exec cfg rs (n + k) = Inr (ph', s') \<Longrightarrow> now s \<le> now s'"
  by (rule exec_now_mono)

theorem clock_never_decreases_witness:
  "\<not> isl (exec DTA1 rs_queue 5) \<and> \<not> isl (exec DTA1 rs_queue 12)
   \<and> now (snd (projr (exec DTA1 rs_queue 5))) = 0
   \<and> now (snd (projr (exec DTA1 rs_queue 12))) = 4
   \<and> now (snd (projr (exec DTA1 rs_queue 5))) \<le> now (snd (projr (exec DTA1 rs_queue 12)))"
proof -
  have a: "\<not> isl (exec DTA1 rs_queue 5)" by code_simp
  have b: "\<not> isl (exec DTA1 rs_queue (5 + 7))" by code_simp
  have c: "now (snd (projr (exec DTA1 rs_queue 5))) = 0" by code_simp
  have d: "now (snd (projr (exec DTA1 rs_queue (5 + 7)))) = 4" by code_simp
  from a obtain ph s where e: "exec DTA1 rs_queue 5 = Inr (ph, s)"
    by (cases "exec DTA1 rs_queue 5") auto
  from b obtain ph' s' where f: "exec DTA1 rs_queue (5 + 7) = Inr (ph', s')"
    by (cases "exec DTA1 rs_queue (5 + 7)") auto
  from clock_never_decreases [OF e f] a b c d e f show ?thesis by simp
qed

text \<open>
  C10: every recorded wait time is at least zero, since no recorded arrival time is
  later than the clock: when a patient is granted a doctor, the time is at least the
  arrival time recorded last.
\<close>

theorem wait_times_nonnegative:
  "exec cfg rs n = Inr (ph, s) \<Longrightarrow>
   (\<forall>w \<in> set (wait_times s). 0 \<le> w) \<and> (\<forall>t \<in> set (arrival_times s). t \<le> now s)"
  by (drule exec_timely) (simp add: timely_def)

theorem wait_times_nonnegative_witness:
  "wait_times (snd (projr (exec DTA1 rs_queue 19))) = [0, 0, 1]
   \<and> list_all (\<lambda>w. 0 \<le> w) (wait_times (snd (projr (exec DTA1 rs_queue 19))))"
proof -
  have a: "\<not> isl (exec DTA1 rs_queue 19)" by code_simp
  have c: "wait_times (snd (projr (exec DTA1 rs_queue 19))) = [0, 0, 1]" by code_simp
  from a obtain ph s where e: "exec DTA1 rs_queue 19 = Inr (ph, s)"
    by (cases "exec DTA1 rs_queue 19") auto
  from wait_times_nonnegative [OF e] c e show ?thesis by (simp add: list_all_iff)
qed

subsection \<open>Arrivals, treatments and departures\<close>

lemma capacity_trigger_put: "capacity (fst (trigger_put r)) = capacity r"
  by (simp add: trigger_put_def split: list.splits)

lemma capacity_request: "capacity (fst (request r q)) = capacity r"
  by (simp add: request_def capacity_trigger_put)

lemma capacity_release: "capacity (release r q) = capacity r"
  by (simp add: release_def)

lemma capacities_set_doctor:
  "capacity r = capacity (doctor (hospitals s ! h)) \<Longrightarrow>
   capacities (set_doctor h r s) = capacities s"
proof (cases "h < length (hospitals s)")
  case True
  assume "capacity r = capacity (doctor (hospitals s ! h))"
  with True show ?thesis
    by (simp add: capacities_def set_doctor_def map_update list_update_same_conv)
next
  case False
  then show ?thesis by (simp add: capacities_def set_doctor_def list_update_beyond)
qed

lemma unchanged_refl: "unchanged s s"
  by (simp add: unchanged_def)

lemma unchanged_trans: "unchanged s s1 \<Longrightarrow> unchanged s1 s2 \<Longrightarrow> unchanged s s2"
  by (simp add: unchanged_def)

lemma unchanged_set_doctor:
  "capacity r = capacity (doctor (hospitals s ! h)) \<Longrightarrow> unchanged s (set_doctor h r s)"
  by (simp add: unchanged_def capacities_set_doctor) (simp add: set_doctor_def)

lemma unchanged_schedule: "unchanged s (schedule ev p d s)"
  by (simp add: unchanged_def schedule_def capacities_def)

lemma unchanged_timeout: "timeout d cbs s = Inr s' \<Longrightarrow> unchanged s s'"
  by (auto simp: timeout_def unchanged_schedule split: if_splits)

lemma unchanged_succeed: "unchanged s (succeed g s)"
  by (cases g) (simp_all add: succeed_def unchanged_refl unchanged_schedule)

lemma unchanged_rid: "unchanged s (s\<lparr>rid := n\<rparr>)"
  by (simp add: unchanged_def capacities_def)

lemma unchanged_doctor_request: "doctor_request h cbs s = (s', q) \<Longrightarrow> unchanged s s'"
proof -
  assume a: "doctor_request h cbs s = (s', q)"
  let ?s1 = "s\<lparr>rid := Suc (rid s)\<rparr>"
  let ?q = "(rid s, Trigger_get h # cbs)"
  obtain r g where r: "request (doctor (hospitals s ! h)) ?q = (r, g)"
    by (cases "request (doctor (hospitals s ! h)) ?q")
  with a have s': "s' = succeed g (set_doctor h r ?s1)"
    by (simp add: doctor_request_def Let_def)
  from capacity_request [of "doctor (hospitals s ! h)" ?q] r
  have "capacity r = capacity (doctor (hospitals ?s1 ! h))" by simp
  from unchanged_set_doctor [OF this] have "unchanged ?s1 (set_doctor h r ?s1)" .
  with unchanged_rid [of s "Suc (rid s)"] have "unchanged s (set_doctor h r ?s1)"
    by (rule unchanged_trans)
  then show ?thesis unfolding s' using unchanged_succeed by (rule unchanged_trans)
qed

lemma unchanged_doctor_release: "unchanged s (doctor_release h q s)"
  unfolding doctor_release_def
  by (rule unchanged_trans [OF unchanged_set_doctor unchanged_schedule])
    (simp add: capacity_release)

lemma unchanged_doctor_trigger_put: "unchanged s (doctor_trigger_put h s)"
proof -
  obtain r g where r: "trigger_put (doctor (hospitals s ! h)) = (r, g)"
    by (cases "trigger_put (doctor (hospitals s ! h))")
  with capacity_trigger_put [of "doctor (hospitals s ! h)"]
  have "capacity r = capacity (doctor (hospitals s ! h))" by simp
  from unchanged_set_doctor [OF this] unchanged_succeed
  have "unchanged s (succeed g (set_doctor h r s))" by (rule unchanged_trans)
  with r show ?thesis by (simp add: doctor_trigger_put_def)
qed

lemma unchanged_tally: "unchanged s s' \<Longrightarrow> tally s' = tally s"
  by (simp add: unchanged_def tally_def flying_def)

lemma flying_update:
  "pid < length ps \<Longrightarrow>
   int (length (filter (\<lambda>p. in_flight (fst p)) (ps[pid := (g, c)])))
     = int (length (filter (\<lambda>p. in_flight (fst p)) ps))
       - (if in_flight (fst (ps ! pid)) then 1 else 0) + (if in_flight g then 1 else 0)"
proof (induction ps arbitrary: pid)
  case Nil
  then show ?case by simp
next
  case (Cons a ps)
  show ?case
  proof (cases pid)
    case 0
    then show ?thesis by simp
  next
    case (Suc m)
    with Cons.prems have "m < length ps" by simp
    from Cons.IH [OF this] Suc show ?thesis by (auto split: if_splits)
  qed
qed

lemma tally_suspend:
  "pid < length (procs s) \<Longrightarrow>
   tally (suspend pid g s)
     = tally s + (if in_flight (fst (procs s ! pid)) then 1 else 0) - (if in_flight g then 1 else 0)"
  by (simp add: tally_def flying_def suspend_def flying_update)

lemma tally_terminate:
  "pid < length (procs s) \<Longrightarrow>
   tally (terminate pid s) = tally s + (if in_flight (fst (procs s ! pid)) then 1 else 0)"
  using unchanged_tally [OF unchanged_schedule, of "(Process, snd (procs s ! pid))" NORMAL 0 "suspend pid Finished s"]
  by (simp add: terminate_def tally_suspend)

lemma tally_process: "\<not> in_flight g \<Longrightarrow> tally (process g cbs s) = tally s"
  by (simp add: process_def tally_def flying_def schedule_def)

lemma procs_process: "procs (process g cbs s) = procs s @ [(g, cbs)]"
  by (simp add: process_def schedule_def)

lemma tally_patient_arrives:
  assumes "patient_arrives pid name h s = Inr s'" and "pid < length (procs s)"
    and "fst (procs s ! pid) = Patient_start name h"
  shows "tally s' = tally s"
proof -
  let ?s1 = "s\<lparr>console := console s @ [Arrives name (now s)],
                arrival_times := arrival_times s @ [now s]\<rparr>"
  obtain s2 q where r: "doctor_request h [Resume pid] ?s1 = (s2, q)"
    by (cases "doctor_request h [Resume pid] ?s1")
  with assms(1) have s': "s' = suspend pid (Patient_request name h q) s2"
    by (simp add: patient_arrives_def Let_def)
  note st = unchanged_doctor_request [OF r]
  from st have p: "procs s2 = procs s" by (simp add: unchanged_def)
  have "tally ?s1 = tally s + 1" by (simp add: tally_def flying_def)
  with unchanged_tally [OF st] assms(2,3) p s' show ?thesis
    by (simp add: tally_suspend)
qed

lemma tally_patient_granted:
  assumes "patient_granted cfg rs pid name h q s = Inr s'" and "pid < length (procs s)"
    and "fst (procs s ! pid) = Patient_request name h q"
  shows "tally s' = tally s"
proof -
  let ?s2 = "s\<lparr>wait_times := wait_times s @ [now s - last (arrival_times s)],
                draws := Suc (draws s)\<rparr>"
  have t2: "tally ?s2 = tally s" and p2: "procs ?s2 = procs s"
    by (simp_all add: tally_def flying_def)
  show ?thesis
  proof (cases "random rs (draws s) < TREAT_PROBABILITY cfg")
    case True
    with assms(1) have s': "s' = suspend pid (Patient_treat name h q)
        (process (Treat_start h name) [Resume pid] ?s2)"
      by (simp add: patient_granted_def Let_def split: if_splits)
    from assms(2,3) t2 p2 show ?thesis
      unfolding s' by (simp add: tally_suspend procs_process tally_process nth_append)
  next
    case False
    let ?s3 = "?s2\<lparr>console := console ?s2 @ [Leaves_untreated name (now ?s2)],
                left_without_treatment_times := left_without_treatment_times ?s2 @ [now ?s2]\<rparr>"
    from False assms(1) have s': "s' = terminate pid (doctor_release h q ?s3)"
      by (simp add: patient_granted_def Let_def split: if_splits)
    have t3: "tally ?s3 = tally s - 1" and p3: "procs ?s3 = procs s"
      by (simp_all add: tally_def flying_def)
    note st = unchanged_doctor_release [of ?s3 h q]
    from st p3 have p4: "procs (doctor_release h q ?s3) = procs s" by (simp add: unchanged_def)
    from unchanged_tally [OF st] t3 p4 assms(2,3) show ?thesis
      unfolding s' by (simp add: tally_terminate)
  qed
qed

lemma tally_patient_treated:
  assumes "patient_treated pid name h q s = Inr s'" and "pid < length (procs s)"
    and "fst (procs s ! pid) = Patient_treat name h q"
  shows "tally s' = tally s"
proof -
  let ?s1 = "s\<lparr>console := console s @ [Leaves_treated name (now s)],
                treated_times := treated_times s @ [now s]\<rparr>"
  from assms(1) have s': "s' = terminate pid (doctor_release h q ?s1)"
    by (simp add: patient_treated_def Let_def)
  have t1: "tally ?s1 = tally s - 1" and p1: "procs ?s1 = procs s"
    by (simp_all add: tally_def flying_def)
  note st = unchanged_doctor_release [of ?s1 h q]
  from st p1 have p4: "procs (doctor_release h q ?s1) = procs s" by (simp add: unchanged_def)
  from unchanged_tally [OF st] t1 p4 assms(2,3) show ?thesis
    unfolding s' by (simp add: tally_terminate)
qed

lemma tally_treat_start:
  assumes "treat_start rs pid h name s = Inr s'" and "pid < length (procs s)"
    and "fst (procs s ! pid) = Treat_start h name"
  shows "tally s' = tally s"
proof -
  let ?s1 = "s\<lparr>draws := Suc (draws s)\<rparr>"
  from assms(1) obtain d s2 where t: "timeout d [Resume pid] ?s1 = Inr s2"
    and s': "s' = suspend pid (Treat_timeout h name d) s2"
    by (auto simp: treat_start_def Let_def split: if_splits sum.splits)
  note st = unchanged_timeout [OF t]
  from st have p: "procs s2 = procs s" by (simp add: unchanged_def)
  have "tally ?s1 = tally s" by (simp add: tally_def flying_def)
  with unchanged_tally [OF st] p assms(2,3) show ?thesis
    unfolding s' by (simp add: tally_suspend)
qed

lemma tally_treat_done:
  assumes "treat_done pid name d s = Inr s'" and "pid < length (procs s)"
    and "fst (procs s ! pid) = Treat_timeout h name d"
  shows "tally s' = tally s"
proof -
  let ?s1 = "s\<lparr>console := console s @ [Was_treated name d]\<rparr>"
  from assms(1) have s': "s' = terminate pid ?s1" by (simp add: treat_done_def)
  have "tally ?s1 = tally s" "procs ?s1 = procs s" by (simp_all add: tally_def flying_def)
  with assms(2,3) show ?thesis unfolding s' by (simp add: tally_terminate)
qed

lemma tally_setup_wait:
  assumes "setup_wait rs pid h i t_inter s = Inr s'" and "pid < length (procs s)"
    and "\<not> in_flight (fst (procs s ! pid))"
  shows "tally s' = tally s"
proof -
  let ?s1 = "s\<lparr>draws := Suc (draws s)\<rparr>"
  from assms(1) obtain d s2 where t: "timeout d [Resume pid] ?s1 = Inr s2"
    and s': "s' = suspend pid (Setup_loop h i t_inter d) s2"
    by (auto simp: setup_wait_def Let_def split: if_splits sum.splits)
  note st = unchanged_timeout [OF t]
  from st have p: "procs s2 = procs s" by (simp add: unchanged_def)
  have "tally ?s1 = tally s" by (simp add: tally_def flying_def)
  with unchanged_tally [OF st] p assms(2,3) show ?thesis
    unfolding s' by (simp add: tally_suspend)
qed

lemma tally_setup_start:
  assumes "setup_start rs pid nd tt t_inter s = Inr s'" and "pid < length (procs s)"
    and "fst (procs s ! pid) = Setup_start nd tt t_inter"
  shows "tally s' = tally s"
proof -
  from assms(1) obtain r where r: "Resource nd = Inr r"
    by (auto simp: setup_start_def split: sum.splits)
  let ?h = "length (hospitals s)"
  let ?s1 = "s\<lparr>hospitals := hospitals s @ [\<lparr>doctor = r, treatment_time = tt\<rparr>]\<rparr>"
  let ?s2 = "foldl (\<lambda>s' i. process (Patient_start i ?h) [] s') ?s1 [1, 2, 3, 4]"
  from assms(1) r have w: "setup_wait rs pid ?h 5 t_inter ?s2 = Inr s'"
    by (simp add: setup_start_def Let_def)
  have t1: "tally ?s1 = tally s" by (simp add: tally_def flying_def)
  have t2: "tally ?s2 = tally s" by (simp add: tally_process t1)
  have p2: "procs ?s2 = procs s @ [(Patient_start 1 ?h, []), (Patient_start 2 ?h, []),
      (Patient_start 3 ?h, []), (Patient_start 4 ?h, [])]"
    by (simp add: procs_process)
  from assms(2,3) p2 have "pid < length (procs ?s2)" "\<not> in_flight (fst (procs ?s2 ! pid))"
    by (simp_all add: nth_append)
  from tally_setup_wait [OF w this] t2 show ?thesis by simp
qed

lemma tally_setup_resumed:
  assumes "setup_resumed rs pid h i t_inter d s = Inr s'" and "pid < length (procs s)"
    and "fst (procs s ! pid) = Setup_loop h i t_inter d"
  shows "tally s' = tally s"
proof -
  let ?s1 = "s\<lparr>console := console s @ [Arrives_after i d]\<rparr>"
  let ?s2 = "process (Patient_start i h) [] ?s1"
  from assms(1) have w: "setup_wait rs pid h (i + 1) t_inter ?s2 = Inr s'"
    by (simp add: setup_resumed_def Let_def)
  have t1: "tally ?s1 = tally s" by (simp add: tally_def flying_def)
  have t2: "tally ?s2 = tally s" by (simp add: tally_process t1)
  have p2: "procs ?s2 = procs s @ [(Patient_start i h, [])]" by (simp add: procs_process)
  from assms(2,3) p2 have "pid < length (procs ?s2)" "\<not> in_flight (fst (procs ?s2 ! pid))"
    by (simp_all add: nth_append)
  from tally_setup_wait [OF w this] t2 show ?thesis by simp
qed

lemma tally_add_doctors_loop:
  assumes "add_doctors_loop pid h k s = Inr s'" and "pid < length (procs s)"
    and "\<not> in_flight (fst (procs s ! pid))"
  shows "tally s' = tally s"
proof (cases "k = 0")
  case True
  with assms show ?thesis by (auto simp: add_doctors_loop_def tally_terminate)
next
  case False
  obtain s1 q where r: "doctor_request h [] s = (s1, q)" by (cases "doctor_request h [] s")
  with False assms(1) obtain s2 where t: "timeout 0 [Resume pid] s1 = Inr s2"
    and s': "s' = suspend pid (Add_doctors_loop h (k - 1)) s2"
    by (auto simp: add_doctors_loop_def split: sum.splits)
  note a = unchanged_doctor_request [OF r] and b = unchanged_timeout [OF t]
  from a b have p: "procs s2 = procs s" by (simp add: unchanged_def)
  from unchanged_tally [OF a] unchanged_tally [OF b] p assms(2,3) show ?thesis
    unfolding s' by (simp add: tally_suspend)
qed

lemma tally_add_doctors:
  assumes "add_doctors pid h n s = Inr s'" and "pid < length (procs s)"
    and "\<not> in_flight (fst (procs s ! pid))"
  shows "tally s' = tally s"
proof -
  let ?s1 = "s\<lparr>console := console s @ [Adding n (now s)]\<rparr>"
  from assms(1) have l: "add_doctors_loop pid h n ?s1 = Inr s'" by (simp add: add_doctors_def)
  have "tally ?s1 = tally s" "procs ?s1 = procs s" by (simp_all add: tally_def flying_def)
  with tally_add_doctors_loop [OF l] assms(2,3) show ?thesis by simp
qed

lemma tally_resume: "resume cfg rs pid s = Inr s' \<Longrightarrow> tally s' = tally s"
proof (cases "length (procs s) \<le> pid")
  case True
  assume "resume cfg rs pid s = Inr s'"
  with True show ?thesis by (simp add: resume_def)
next
  case False
  assume r: "resume cfg rs pid s = Inr s'"
  from False have l: "pid < length (procs s)" by simp
  show ?thesis
  proof (cases "fst (procs s ! pid)")
    case (Setup_start nd tt ti)
    with r False tally_setup_start [OF _ l Setup_start] show ?thesis by (simp add: resume_def)
  next
    case (Setup_loop h i ti d)
    with r False tally_setup_resumed [OF _ l Setup_loop] show ?thesis by (simp add: resume_def)
  next
    case (Patient_start name h)
    with r False tally_patient_arrives [OF _ l Patient_start] show ?thesis by (simp add: resume_def)
  next
    case (Patient_request name h q)
    with r False tally_patient_granted [OF _ l Patient_request] show ?thesis by (simp add: resume_def)
  next
    case (Patient_treat name h q)
    with r False tally_patient_treated [OF _ l Patient_treat] show ?thesis by (simp add: resume_def)
  next
    case (Treat_start h name)
    with r False tally_treat_start [OF _ l Treat_start] show ?thesis by (simp add: resume_def)
  next
    case (Treat_timeout h name d)
    with r False tally_treat_done [OF _ l Treat_timeout] show ?thesis by (simp add: resume_def)
  next
    case (Add_doctors_start h n)
    with r False tally_add_doctors [OF _ l] show ?thesis by (simp add: resume_def)
  next
    case (Add_doctors_loop h k)
    with r False tally_add_doctors_loop [OF _ l] show ?thesis by (simp add: resume_def)
  next
    case Finished
    with r False show ?thesis by (simp add: resume_def)
  qed
qed

lemma tally_run_callbacks:
  "run_callbacks cfg rs cbs s = Inr (b, s') \<Longrightarrow> tally s' = tally s"
proof (induction cfg rs cbs s rule: run_callbacks.induct)
  case (3 cfg rs pid cs s)
  then obtain s1 where r: "resume cfg rs pid s = Inr s1"
    and c: "run_callbacks cfg rs cs s1 = Inr (b, s')"
    by (auto split: sum.splits)
  from tally_resume [OF r] "3.IH" [OF r c] show ?case by simp
next
  case (4 cfg rs h cs s)
  then have "tally s' = tally (doctor_trigger_put h s)" by simp
  with unchanged_tally [OF unchanged_doctor_trigger_put [of s h]] show ?case by simp
qed simp_all

lemma tally_step: "step cfg rs s = Inr (b, s') \<Longrightarrow> tally s' = tally s"
proof (cases "heappop (queue s)")
  case None
  assume "step cfg rs s = Inr (b, s')"
  with None show ?thesis by (simp add: step_def)
next
  case (Some mr)
  assume st: "step cfg rs s = Inr (b, s')"
  obtain t p i k cbs r where mr: "mr = ((t, p, i, k, cbs), r)" by (cases mr) auto
  from st Some mr have "run_callbacks cfg rs cbs (s\<lparr>now := t, queue := r\<rparr>) = Inr (b, s')"
    by (simp add: step_def)
  from tally_run_callbacks [OF this] show ?thesis by (simp add: tally_def flying_def)
qed

lemma tally_run_until: "run_until t s = Inr s' \<Longrightarrow> tally s' = tally s"
  using unchanged_tally [OF unchanged_schedule]
  by (auto simp: run_until_def split: if_splits)

lemma tally_start: "start cfg = Inr (ph, s) \<Longrightarrow> tally s = 0"
proof -
  assume a: "start cfg = Inr (ph, s)"
  then obtain r where r: "Resource (NUM_DOCTORS cfg) = Inr r"
    by (auto simp: start_def split: sum.splits)
  let ?s0 = "\<lparr>now = 0, eid = 0, queue = [], procs = [],
      hospitals = [\<lparr>doctor = r, treatment_time = TREATMENT_TIME cfg\<rparr>],
      rid = 0, draws = 0, arrival_times = [], treated_times = [],
      left_without_treatment_times = [], wait_times = [], console = []\<rparr>"
  let ?s1 = "process (Setup_start (NUM_DOCTORS cfg) (TREATMENT_TIME cfg) (T_INTER cfg)) [] ?s0"
  from a r have u: "run_until (SIM_TIME cfg) ?s1 = Inr s"
    by (simp add: start_def Let_def split: sum.splits)
  have "tally ?s0 = 0" by (simp add: tally_def flying_def)
  then have "tally ?s1 = 0" by (simp add: tally_process)
  with tally_run_until [OF u] show ?thesis by simp
qed

lemma tally_script_step:
  "script_step cfg rs (ph, s) = Inr (ph', s') \<Longrightarrow> tally s' = tally s"
  by (cases ph)
    (auto simp: script_step_def tally_process split: sum.splits bool.splits
      dest!: tally_step tally_run_until)

lemma tally_exec: "exec cfg rs n = Inr (ph, s) \<Longrightarrow> tally s = 0"
proof (induction n arbitrary: ph s)
  case 0
  then show ?case by (simp add: tally_start)
next
  case (Suc n)
  then obtain ph0 s0 where e: "exec cfg rs n = Inr (ph0, s0)"
    and st: "script_step cfg rs (ph0, s0) = Inr (ph, s)"
    by (auto split: sum.splits)
  from tally_script_step [OF st] Suc.IH [OF e] show ?case by simp
qed

lemma flying_resolved:
  "\<forall>p \<in> set (procs s). \<not> unresolved (fst p) \<Longrightarrow> flying s = 0"
proof -
  assume a: "\<forall>p \<in> set (procs s). \<not> unresolved (fst p)"
  have "in_flight g \<Longrightarrow> unresolved g" for g by (cases g) simp_all
  with a have "\<forall>p \<in> set (procs s). \<not> in_flight (fst p)" by blast
  then show ?thesis by (simp add: flying_def)
qed

lemma dta_total_patients_sum:
  "dta_total_patients s = treated_count s + left_without_treatment_count s"
  by (simp add: dta_total_patients_def)

text \<open>
  C6: in every state of a run in which every spawned patient has reached its
  resolution (in particular at the end of such a run), the patients treated and the
  patients who left without treatment are together the patients who arrived.
\<close>

theorem treated_plus_abandoned:
  "exec cfg rs n = Inr (ph, s) \<Longrightarrow> \<forall>p \<in> set (procs s). \<not> unresolved (fst p) \<Longrightarrow>
   treated_count s + left_without_treatment_count s = total_patients s"
  by (drule tally_exec, drule flying_resolved)
    (simp add: tally_def treated_count_def left_without_treatment_count_def total_patients_def)

theorem treated_plus_abandoned_witness:
  "treated_count (snd (projr (exec DTA1 rs_mixed 28)))
     + left_without_treatment_count (snd (projr (exec DTA1 rs_mixed 28)))
     = total_patients (snd (projr (exec DTA1 rs_mixed 28)))
   \<and> treated_count (snd (projr (exec DTA1 rs_mixed 28))) = 1
   \<and> left_without_treatment_count (snd (projr (exec DTA1 rs_mixed 28))) = 3
   \<and> fst (projr (exec DTA1 rs_mixed 28)) = Report"
proof -
  have a: "\<not> isl (exec DTA1 rs_mixed 28)" by code_simp
  have h: "\<forall>p \<in> set (procs (snd (projr (exec DTA1 rs_mixed 28)))). \<not> unresolved (fst p)"
    by code_simp
  have c: "treated_count (snd (projr (exec DTA1 rs_mixed 28))) = 1" by code_simp
  have d: "left_without_treatment_count (snd (projr (exec DTA1 rs_mixed 28))) = 3"
    by code_simp
  have f: "fst (projr (exec DTA1 rs_mixed 28)) = Report" by code_simp
  from a obtain ph s where e: "exec DTA1 rs_mixed 28 = Inr (ph, s)"
    by (cases "exec DTA1 rs_mixed 28") auto
  from h e have "\<forall>p \<in> set (procs s). \<not> unresolved (fst p)" by simp
  from treated_plus_abandoned [OF e this] c d f e show ?thesis by simp
qed

subsection \<open>A run in which no patient is treated\<close>

lemma untreated_unchanged: "unchanged s s' \<Longrightarrow> untreated s \<Longrightarrow> untreated s'"
  by (simp add: unchanged_def untreated_def)

lemma untreated_schedule: "untreated s \<Longrightarrow> untreated (schedule ev p d s)"
  by (rule untreated_unchanged [OF unchanged_schedule])

lemma untreated_timeout: "timeout d cbs s = Inr s' \<Longrightarrow> untreated s \<Longrightarrow> untreated s'"
  by (rule untreated_unchanged [OF unchanged_timeout])

lemma untreated_doctor_request:
  "doctor_request h cbs s = (s', q) \<Longrightarrow> untreated s \<Longrightarrow> untreated s'"
  by (rule untreated_unchanged [OF unchanged_doctor_request])

lemma untreated_doctor_release: "untreated s \<Longrightarrow> untreated (doctor_release h q s)"
  by (rule untreated_unchanged [OF unchanged_doctor_release])

lemma untreated_doctor_trigger_put: "untreated s \<Longrightarrow> untreated (doctor_trigger_put h s)"
  by (rule untreated_unchanged [OF unchanged_doctor_trigger_put])

lemma in_set_update: "p \<in> set (xs[i := x]) \<Longrightarrow> p = x \<or> p \<in> set xs"
  using set_update_subset_insert [of xs i x] by auto

lemma untreated_suspend: "\<not> treating g \<Longrightarrow> untreated s \<Longrightarrow> untreated (suspend pid g s)"
  by (auto simp: untreated_def suspend_def dest!: in_set_update)

lemma untreated_terminate: "untreated s \<Longrightarrow> untreated (terminate pid s)"
  unfolding terminate_def by (intro untreated_schedule untreated_suspend) simp_all

lemma untreated_process: "\<not> treating g \<Longrightarrow> untreated s \<Longrightarrow> untreated (process g cbs s)"
  by (auto simp: untreated_def process_def schedule_def)

lemma untreated_patient_arrives:
  "patient_arrives pid name h s = Inr s' \<Longrightarrow> untreated s \<Longrightarrow> untreated s'"
  unfolding patient_arrives_def Let_def
  apply (clarsimp split: prod.splits)
  apply (rule untreated_suspend)
   apply simp
  apply (erule untreated_doctor_request)
  apply (simp add: untreated_def)
  done

lemma untreated_patient_granted:
  "TREAT_PROBABILITY cfg = 0 \<Longrightarrow> 0 \<le> random rs (draws s) \<Longrightarrow>
   patient_granted cfg rs pid name h q s = Inr s' \<Longrightarrow> untreated s \<Longrightarrow> untreated s'"
  unfolding patient_granted_def Let_def
  apply (clarsimp split: if_splits)
  apply (intro untreated_terminate untreated_doctor_release)
  apply (simp add: untreated_def)
  done

lemma untreated_setup_wait:
  "setup_wait rs pid h i t_inter s = Inr s' \<Longrightarrow> untreated s \<Longrightarrow> untreated s'"
  unfolding setup_wait_def Let_def
  apply (clarsimp split: if_splits sum.splits)
  apply (rule untreated_suspend)
   apply simp
  apply (erule untreated_timeout)
  apply (simp add: untreated_def)
  done

lemma untreated_setup_start:
  "setup_start rs pid nd tt t_inter s = Inr s' \<Longrightarrow> untreated s \<Longrightarrow> untreated s'"
  unfolding setup_start_def Let_def
  apply (clarsimp split: sum.splits)
  apply (erule untreated_setup_wait)
  apply (intro untreated_process)
      apply simp_all
  apply (simp add: untreated_def)
  done

lemma untreated_setup_resumed:
  "setup_resumed rs pid h i t_inter d s = Inr s' \<Longrightarrow> untreated s \<Longrightarrow> untreated s'"
  unfolding setup_resumed_def Let_def
  apply (erule untreated_setup_wait)
  apply (rule untreated_process)
   apply simp
  apply (simp add: untreated_def)
  done

lemma untreated_add_doctors_loop:
  "add_doctors_loop pid h k s = Inr s' \<Longrightarrow> untreated s \<Longrightarrow> untreated s'"
  unfolding add_doctors_loop_def
  apply (clarsimp split: if_splits prod.splits sum.splits)
   apply (erule untreated_terminate)
  apply (rule untreated_suspend)
   apply simp
  apply (erule untreated_timeout)
  apply (erule untreated_doctor_request)
  apply assumption
  done

lemma untreated_add_doctors:
  "add_doctors pid h n s = Inr s' \<Longrightarrow> untreated s \<Longrightarrow> untreated s'"
  unfolding add_doctors_def
  apply (erule untreated_add_doctors_loop)
  apply (simp add: untreated_def)
  done

lemma untreated_resume:
  assumes "TREAT_PROBABILITY cfg = 0" and "\<forall>i. 0 \<le> random rs i"
    and "resume cfg rs pid s = Inr s'" and "untreated s"
  shows "untreated s'"
proof (cases "length (procs s) \<le> pid")
  case True
  with assms show ?thesis by (simp add: resume_def)
next
  case False
  then have "procs s ! pid \<in> set (procs s)" by simp
  with assms(4) have n: "\<not> treating (fst (procs s ! pid))" by (simp add: untreated_def)
  from assms(2) have u: "0 \<le> random rs (draws s)" by simp
  from assms(3,4) False n show ?thesis
    by (cases "fst (procs s ! pid)")
      (auto simp: resume_def
        intro: untreated_patient_arrives untreated_patient_granted [OF assms(1) u]
          untreated_setup_start untreated_setup_resumed untreated_add_doctors
          untreated_add_doctors_loop)
qed

lemma untreated_run_callbacks:
  "TREAT_PROBABILITY cfg = 0 \<Longrightarrow> \<forall>i. 0 \<le> random rs i \<Longrightarrow>
   run_callbacks cfg rs cbs s = Inr (b, s') \<Longrightarrow> untreated s \<Longrightarrow> untreated s'"
proof (induction cfg rs cbs s rule: run_callbacks.induct)
  case (3 cfg rs pid cs s)
  from "3.prems"(3) obtain s1 where r: "resume cfg rs pid s = Inr s1"
    and c: "run_callbacks cfg rs cs s1 = Inr (b, s')"
    by (auto split: sum.splits)
  from untreated_resume [OF "3.prems"(1,2) r "3.prems"(4)] have "untreated s1" .
  from "3.IH" [OF r "3.prems"(1,2) c this] show ?case .
next
  case (4 cfg rs h cs s)
  then show ?case by (simp add: untreated_doctor_trigger_put)
qed simp_all

lemma untreated_step:
  assumes "TREAT_PROBABILITY cfg = 0" and "\<forall>i. 0 \<le> random rs i"
    and "step cfg rs s = Inr (b, s')" and "untreated s"
  shows "untreated s'"
proof (cases "heappop (queue s)")
  case None
  with assms show ?thesis by (simp add: step_def)
next
  case (Some mr)
  obtain t p i k cbs r where mr: "mr = ((t, p, i, k, cbs), r)" by (cases mr) auto
  from assms(3) Some mr
  have c: "run_callbacks cfg rs cbs (s\<lparr>now := t, queue := r\<rparr>) = Inr (b, s')"
    by (simp add: step_def)
  from assms(4) have "untreated (s\<lparr>now := t, queue := r\<rparr>)" by (simp add: untreated_def)
  from untreated_run_callbacks [OF assms(1,2) c this] show ?thesis .
qed

lemma untreated_run_until: "run_until t s = Inr s' \<Longrightarrow> untreated s \<Longrightarrow> untreated s'"
  by (auto simp: run_until_def untreated_schedule split: if_splits)

lemma untreated_start: "start cfg = Inr (ph, s) \<Longrightarrow> untreated s"
  apply (clarsimp simp: start_def Let_def split: sum.splits)
  apply (erule untreated_run_until)
  apply (rule untreated_process)
   apply simp
  apply (simp add: untreated_def)
  done

lemma untreated_script_step:
  assumes p: "TREAT_PROBABILITY cfg = 0" and r: "\<forall>i. 0 \<le> random rs i"
    and st: "script_step cfg rs (ph, s) = Inr (ph', s')" and u: "untreated s"
  shows "untreated s'"
proof (cases ph)
  case Report
  with st u show ?thesis by (simp add: script_step_def)
next
  case First_run
  show ?thesis
  proof (cases "step cfg rs s")
    case (Inl e)
    with st First_run show ?thesis by (simp add: script_step_def)
  next
    case (Inr bs)
    obtain b s1 where bs: "bs = (b, s1)" by (cases bs)
    from untreated_step [OF p r Inr [unfolded bs] u] have u1: "untreated s1" .
    show ?thesis
    proof (cases b)
      case False
      with st First_run Inr bs u1 show ?thesis by (simp add: script_step_def)
    next
      case True
      with st First_run Inr bs
      have r: "run_until 200 (process (Add_doctors_start 0 2) [] s1) = Inr s'"
        by (simp add: script_step_def split: sum.splits)
      have "untreated (process (Add_doctors_start 0 2) [] s1)"
        by (rule untreated_process [OF _ u1]) simp
      from untreated_run_until [OF r this] show ?thesis .
    qed
  qed
next
  case Second_run
  show ?thesis
  proof (cases "step cfg rs s")
    case (Inl e)
    with st Second_run show ?thesis by (simp add: script_step_def)
  next
    case (Inr bs)
    obtain b s1 where bs: "bs = (b, s1)" by (cases bs)
    from untreated_step [OF p r Inr [unfolded bs] u] have u1: "untreated s1" .
    from st Second_run Inr bs have "s' = s1"
      by (cases b) (simp_all add: script_step_def)
    with u1 show ?thesis by simp
  qed
qed

lemma untreated_exec:
  assumes "TREAT_PROBABILITY cfg = 0" and "\<forall>i. 0 \<le> random rs i"
  shows "exec cfg rs n = Inr (ph, s) \<Longrightarrow> untreated s"
proof (induction n arbitrary: ph s)
  case 0
  then show ?case by (simp add: untreated_start)
next
  case (Suc n)
  then obtain ph0 s0 where e: "exec cfg rs n = Inr (ph0, s0)"
    and st: "script_step cfg rs (ph0, s0) = Inr (ph, s)"
    by (auto split: sum.splits)
  from untreated_script_step [OF assms st Suc.IH [OF e]] show ?case .
qed

text \<open>
  C8: with \<open>TREAT_PROBABILITY = 0\<close> (and \<open>random.random()\<close> never negative) no
  patient is ever treated: at every point of the run the treated count is 0, no
  generator of \<open>Hospital.treat\<close> exists, so that no duration of a treatment is drawn,
  and every patient that was granted a doctor has left in the same step.
\<close>

theorem no_treatment_at_probability_zero:
  "TREAT_PROBABILITY cfg = 0 \<Longrightarrow> \<forall>i. 0 \<le> random rs i \<Longrightarrow> exec cfg rs n = Inr (ph, s) \<Longrightarrow>
   treated_count s = 0 \<and> (\<forall>p \<in> set (procs s). \<not> treating (fst p))
   \<and> length (left_without_treatment_times s) = length (wait_times s)"
  by (drule (2) untreated_exec) (simp add: untreated_def treated_count_def)

theorem no_treatment_at_probability_zero_witness:
  "treated_count (snd (projr (exec never_treat rs_queue 30))) = 0
   \<and> length (wait_times (snd (projr (exec never_treat rs_queue 30)))) = 5
   \<and> length (left_without_treatment_times (snd (projr (exec never_treat rs_queue 30)))) = 5"
proof -
  have p: "TREAT_PROBABILITY never_treat = 0" by (simp add: never_treat_def)
  have r: "\<forall>i. 0 \<le> random rs_queue i" by (simp add: rs_queue_def)
  have a: "\<not> isl (exec never_treat rs_queue 30)" by code_simp
  have c: "length (wait_times (snd (projr (exec never_treat rs_queue 30)))) = 5" by code_simp
  from a obtain ph s where e: "exec never_treat rs_queue 30 = Inr (ph, s)"
    by (cases "exec never_treat rs_queue 30") auto
  from no_treatment_at_probability_zero [OF p r e] c e show ?thesis by simp
qed

subsection \<open>The number of doctors\<close>

lemma staffed_unchanged: "unchanged s s' \<Longrightarrow> staffed cfg s \<Longrightarrow> staffed cfg s'"
  by (simp add: unchanged_def staffed_def)

lemma staffed_schedule: "staffed cfg s \<Longrightarrow> staffed cfg (schedule ev p d s)"
  by (rule staffed_unchanged [OF unchanged_schedule])

lemma staffed_timeout: "timeout d cbs s = Inr s' \<Longrightarrow> staffed cfg s \<Longrightarrow> staffed cfg s'"
  by (rule staffed_unchanged [OF unchanged_timeout])

lemma staffed_doctor_request:
  "doctor_request h cbs s = (s', q) \<Longrightarrow> staffed cfg s \<Longrightarrow> staffed cfg s'"
  by (rule staffed_unchanged [OF unchanged_doctor_request])

lemma staffed_doctor_release: "staffed cfg s \<Longrightarrow> staffed cfg (doctor_release h q s)"
  by (rule staffed_unchanged [OF unchanged_doctor_release])

lemma staffed_doctor_trigger_put: "staffed cfg s \<Longrightarrow> staffed cfg (doctor_trigger_put h s)"
  by (rule staffed_unchanged [OF unchanged_doctor_trigger_put])

lemma staffed_suspend:
  "setup_with (NUM_DOCTORS cfg) g \<Longrightarrow> staffed cfg s \<Longrightarrow> staffed cfg (suspend pid g s)"
  by (auto simp: staffed_def suspend_def capacities_def dest!: in_set_update)

lemma staffed_terminate: "staffed cfg s \<Longrightarrow> staffed cfg (terminate pid s)"
  unfolding terminate_def by (intro staffed_schedule staffed_suspend) simp_all

lemma staffed_process:
  "setup_with (NUM_DOCTORS cfg) g \<Longrightarrow> staffed cfg s \<Longrightarrow> staffed cfg (process g cbs s)"
  by (auto simp: staffed_def process_def schedule_def capacities_def)

lemma staffed_patient_arrives:
  "patient_arrives pid name h s = Inr s' \<Longrightarrow> staffed cfg s \<Longrightarrow> staffed cfg s'"
  unfolding patient_arrives_def Let_def
  apply (clarsimp split: prod.splits)
  apply (rule staffed_suspend)
   apply simp
  apply (erule staffed_doctor_request)
  apply (simp add: staffed_def capacities_def)
  done

lemma staffed_patient_granted:
  "patient_granted cfg' rs pid name h q s = Inr s' \<Longrightarrow> staffed cfg s \<Longrightarrow> staffed cfg s'"
  unfolding patient_granted_def Let_def
  apply (clarsimp split: if_splits)
   apply (intro staffed_suspend staffed_process)
     apply simp_all[2]
   apply (simp add: staffed_def capacities_def)
  apply (intro staffed_terminate staffed_doctor_release)
  apply (simp add: staffed_def capacities_def)
  done

lemma staffed_patient_treated:
  "patient_treated pid name h q s = Inr s' \<Longrightarrow> staffed cfg s \<Longrightarrow> staffed cfg s'"
  unfolding patient_treated_def Let_def
  apply clarsimp
  apply (intro staffed_terminate staffed_doctor_release)
  apply (simp add: staffed_def capacities_def)
  done

lemma staffed_treat_start:
  "treat_start rs pid h name s = Inr s' \<Longrightarrow> staffed cfg s \<Longrightarrow> staffed cfg s'"
  unfolding treat_start_def Let_def
  apply (clarsimp split: if_splits sum.splits)
  apply (rule staffed_suspend)
   apply simp
  apply (erule staffed_timeout)
  apply (simp add: staffed_def capacities_def)
  done

lemma staffed_treat_done:
  "treat_done pid name d s = Inr s' \<Longrightarrow> staffed cfg s \<Longrightarrow> staffed cfg s'"
  unfolding treat_done_def
  apply clarsimp
  apply (rule staffed_terminate)
  apply (simp add: staffed_def capacities_def)
  done

lemma staffed_setup_wait:
  "setup_wait rs pid h i t_inter s = Inr s' \<Longrightarrow> staffed cfg s \<Longrightarrow> staffed cfg s'"
  unfolding setup_wait_def Let_def
  apply (clarsimp split: if_splits sum.splits)
  apply (rule staffed_suspend)
   apply simp
  apply (erule staffed_timeout)
  apply (simp add: staffed_def capacities_def)
  done

lemma staffed_setup_start:
  "setup_start rs pid (NUM_DOCTORS cfg) tt t_inter s = Inr s' \<Longrightarrow> staffed cfg s \<Longrightarrow>
   staffed cfg s'"
  unfolding setup_start_def Let_def
  apply (clarsimp split: sum.splits)
  apply (erule staffed_setup_wait)
  apply (intro staffed_process)
      apply simp_all
  apply (auto simp: staffed_def capacities_def Resource_def split: if_splits)
  done

lemma staffed_setup_resumed:
  "setup_resumed rs pid h i t_inter d s = Inr s' \<Longrightarrow> staffed cfg s \<Longrightarrow> staffed cfg s'"
  unfolding setup_resumed_def Let_def
  apply (erule staffed_setup_wait)
  apply (rule staffed_process)
   apply simp
  apply (simp add: staffed_def capacities_def)
  done

lemma staffed_add_doctors_loop:
  "add_doctors_loop pid h k s = Inr s' \<Longrightarrow> staffed cfg s \<Longrightarrow> staffed cfg s'"
  unfolding add_doctors_loop_def
  apply (clarsimp split: if_splits prod.splits sum.splits)
   apply (erule staffed_terminate)
  apply (rule staffed_suspend)
   apply simp
  apply (erule staffed_timeout)
  apply (erule staffed_doctor_request)
  apply assumption
  done

lemma staffed_add_doctors:
  "add_doctors pid h n s = Inr s' \<Longrightarrow> staffed cfg s \<Longrightarrow> staffed cfg s'"
  unfolding add_doctors_def
  apply (erule staffed_add_doctors_loop)
  apply (simp add: staffed_def capacities_def)
  done

lemma staffed_resume:
  assumes "resume cfg' rs pid s = Inr s'" and "staffed cfg s"
  shows "staffed cfg s'"
proof (cases "length (procs s) \<le> pid")
  case True
  with assms show ?thesis by (simp add: resume_def)
next
  case False
  then have "procs s ! pid \<in> set (procs s)" by simp
  with assms(2) have n: "setup_with (NUM_DOCTORS cfg) (fst (procs s ! pid))"
    by (simp add: staffed_def)
  from assms False n show ?thesis
    by (cases "fst (procs s ! pid)")
      (auto simp: resume_def
        intro: staffed_patient_arrives staffed_patient_granted staffed_patient_treated
          staffed_treat_start staffed_treat_done
          staffed_setup_start staffed_setup_resumed staffed_add_doctors
          staffed_add_doctors_loop)
qed

lemma staffed_run_callbacks:
  "run_callbacks cfg' rs cbs s = Inr (b, s') \<Longrightarrow> staffed cfg s \<Longrightarrow> staffed cfg s'"
proof (induction cfg' rs cbs s rule: run_callbacks.induct)
  case (3 cfg' rs pid cs s)
  from "3.prems"(1) obtain s1 where r: "resume cfg' rs pid s = Inr s1"
    and c: "run_callbacks cfg' rs cs s1 = Inr (b, s')"
    by (auto split: sum.splits)
  from "3.IH" [OF r c staffed_resume [OF r "3.prems"(2)]] show ?case .
next
  case (4 cfg' rs h cs s)
  then show ?case by (simp add: staffed_doctor_trigger_put)
qed simp_all

lemma staffed_step:
  assumes "step cfg' rs s = Inr (b, s')" and "staffed cfg s"
  shows "staffed cfg s'"
proof (cases "heappop (queue s)")
  case None
  with assms show ?thesis by (simp add: step_def)
next
  case (Some mr)
  obtain t p i k cbs r where mr: "mr = ((t, p, i, k, cbs), r)" by (cases mr) auto
  from assms(1) Some mr
  have c: "run_callbacks cfg' rs cbs (s\<lparr>now := t, queue := r\<rparr>) = Inr (b, s')"
    by (simp add: step_def)
  from assms(2) have "staffed cfg (s\<lparr>now := t, queue := r\<rparr>)"
    by (simp add: staffed_def capacities_def)
  from staffed_run_callbacks [OF c this] show ?thesis .
qed

lemma staffed_run_until: "run_until t s = Inr s' \<Longrightarrow> staffed cfg s \<Longrightarrow> staffed cfg s'"
  by (auto simp: run_until_def staffed_schedule split: if_splits)

lemma staffed_start: "start cfg = Inr (ph, s) \<Longrightarrow> staffed cfg s"
  apply (clarsimp simp: start_def Let_def split: sum.splits)
  apply (erule staffed_run_until)
  apply (rule staffed_process)
   apply simp
  apply (auto simp: staffed_def capacities_def Resource_def split: if_splits)
  done

lemma staffed_script_step:
  assumes st: "script_step cfg rs (ph, s) = Inr (ph', s')" and u: "staffed cfg s"
  shows "staffed cfg s'"
proof (cases ph)
  case Report
  with st u show ?thesis by (simp add: script_step_def)
next
  case First_run
  show ?thesis
  proof (cases "step cfg rs s")
    case (Inl e)
    with st First_run show ?thesis by (simp add: script_step_def)
  next
    case (Inr bs)
    obtain b s1 where bs: "bs = (b, s1)" by (cases bs)
    from staffed_step [OF Inr [unfolded bs] u] have u1: "staffed cfg s1" .
    show ?thesis
    proof (cases b)
      case False
      with st First_run Inr bs u1 show ?thesis by (simp add: script_step_def)
    next
      case True
      with st First_run Inr bs
      have r: "run_until 200 (process (Add_doctors_start 0 2) [] s1) = Inr s'"
        by (simp add: script_step_def split: sum.splits)
      have "staffed cfg (process (Add_doctors_start 0 2) [] s1)"
        by (rule staffed_process [OF _ u1]) simp
      from staffed_run_until [OF r this] show ?thesis .
    qed
  qed
next
  case Second_run
  show ?thesis
  proof (cases "step cfg rs s")
    case (Inl e)
    with st Second_run show ?thesis by (simp add: script_step_def)
  next
    case (Inr bs)
    obtain b s1 where bs: "bs = (b, s1)" by (cases bs)
    from staffed_step [OF Inr [unfolded bs] u] have u1: "staffed cfg s1" .
    from st Second_run Inr bs have "s' = s1"
      by (cases b) (simp_all add: script_step_def)
    with u1 show ?thesis by simp
  qed
qed

lemma staffed_exec: "exec cfg rs n = Inr (ph, s) \<Longrightarrow> staffed cfg s"
proof (induction n arbitrary: ph s)
  case 0
  then show ?case by (simp add: staffed_start)
next
  case (Suc n)
  then obtain ph0 s0 where e: "exec cfg rs n = Inr (ph0, s0)"
    and st: "script_step cfg rs (ph0, s0) = Inr (ph, s)"
    by (auto split: sum.splits)
  from staffed_script_step [OF st Suc.IH [OF e]] show ?case .
qed

text \<open>
  C1: \<open>add_doctors\<close> does not expand the pool. In every state of every run each pool
  has the capacity \<open>NUM_DOCTORS\<close> it was made with: the requests of \<open>add_doctors\<close>
  take slots of the module's own pool (which no patient uses) and are never released.
  In the run below the capacities read 2 and 2 at the end, the two requests hold both
  slots of the module's pool, and patient 5, who has waited since time 3 for a doctor
  of the other pool, still waits at time 200.
\<close>

theorem add_doctors_keeps_capacity:
  "exec cfg rs n = Inr (ph, s) \<Longrightarrow>
   \<forall>h \<in> set (hospitals s). capacity (doctor h) = nat (NUM_DOCTORS cfg)"
  by (drule staffed_exec) (simp add: staffed_def capacities_def)

theorem add_doctors_keeps_capacity_witness:
  "fst (projr (exec DTA1 rs_queue 31)) = Report
   \<and> now (snd (projr (exec DTA1 rs_queue 31))) = 200
   \<and> list_all (\<lambda>h. capacity (doctor h) = 2) (hospitals (snd (projr (exec DTA1 rs_queue 31))))
   \<and> length (hospitals (snd (projr (exec DTA1 rs_queue 31)))) = 2
   \<and> in_use (doctor (hospitals (snd (projr (exec DTA1 rs_queue 31))) ! 0)) = 2
   \<and> map fst (put_queue (doctor (hospitals (snd (projr (exec DTA1 rs_queue 31))) ! 1))) = [4]
   \<and> fst (procs (snd (projr (exec DTA1 rs_queue 31))) ! 7)
       = Patient_request 5 1 (4, [Trigger_get 1, Resume 7])"
proof -
  have a: "\<not> isl (exec DTA1 rs_queue 31)" by code_simp
  have b: "fst (projr (exec DTA1 rs_queue 31)) = Report" by code_simp
  have c: "now (snd (projr (exec DTA1 rs_queue 31))) = 200" by code_simp
  have d: "length (hospitals (snd (projr (exec DTA1 rs_queue 31)))) = 2" by code_simp
  have f: "in_use (doctor (hospitals (snd (projr (exec DTA1 rs_queue 31))) ! 0)) = 2"
    by code_simp
  have g: "map fst (put_queue (doctor (hospitals (snd (projr (exec DTA1 rs_queue 31))) ! 1)))
      = [4]"
    by code_simp
  have h: "fst (procs (snd (projr (exec DTA1 rs_queue 31))) ! 7)
      = Patient_request 5 1 (4, [Trigger_get 1, Resume 7])"
    by code_simp
  from a obtain ph s where e: "exec DTA1 rs_queue 31 = Inr (ph, s)"
    by (cases "exec DTA1 rs_queue 31") auto
  from add_doctors_keeps_capacity [OF e]
  have "list_all (\<lambda>h. capacity (doctor h) = 2) (hospitals s)"
    by (simp add: list_all_iff DTA1_def)
  with b c d f g h e show ?thesis by simp
qed

subsection \<open>The recorded wait time\<close>

text \<open>
  C4: the wait time recorded at a grant is the time since the arrival recorded last,
  which need not be the arrival of the patient granted. In the run below patient 3
  arrives at time 0 and waits; patient 5 arrives at time 3; at time 4 patient 1 leaves
  and patient 3 is granted the doctor. The wait time recorded for patient 3 is
  \<open>4 - 3 = 1\<close>, not \<open>4 - 0 = 4\<close>.
\<close>

theorem wait_time_from_last_arrival:
  "console (snd (projr (exec DTA1 rs_queue 15)))
     = [Arrives 1 0, Arrives 2 0, Arrives 3 0, Arrives 4 0, Arrives_after 5 3, Arrives 5 3,
        Was_treated 1 4, Leaves_treated 1 4]
   \<and> fst (procs (snd (projr (exec DTA1 rs_queue 15))) ! 3)
       = Patient_request 3 1 (2, [Trigger_get 1, Resume 3])
   \<and> arrival_times (snd (projr (exec DTA1 rs_queue 15))) = [0, 0, 0, 0, 3]
   \<and> wait_times (snd (projr (exec DTA1 rs_queue 15))) = [0, 0]
   \<and> now (snd (projr (exec DTA1 rs_queue 16))) = 4
   \<and> fst (procs (snd (projr (exec DTA1 rs_queue 16))) ! 3)
       = Patient_treat 3 1 (2, [Trigger_get 1, Resume 3])
   \<and> wait_times (snd (projr (exec DTA1 rs_queue 16))) = [0, 0, 1]"
proof -
  have a: "console (snd (projr (exec DTA1 rs_queue 15)))
     = [Arrives 1 0, Arrives 2 0, Arrives 3 0, Arrives 4 0, Arrives_after 5 3, Arrives 5 3,
        Was_treated 1 4, Leaves_treated 1 4]"
    by code_simp
  have b: "fst (procs (snd (projr (exec DTA1 rs_queue 15))) ! 3)
       = Patient_request 3 1 (2, [Trigger_get 1, Resume 3])"
    by code_simp
  have c: "arrival_times (snd (projr (exec DTA1 rs_queue 15))) = [0, 0, 0, 0, 3]"
    by code_simp
  have d: "wait_times (snd (projr (exec DTA1 rs_queue 15))) = [0, 0]" by code_simp
  have e: "now (snd (projr (exec DTA1 rs_queue 16))) = 4" by code_simp
  have f: "fst (procs (snd (projr (exec DTA1 rs_queue 16))) ! 3)
       = Patient_treat 3 1 (2, [Trigger_get 1, Resume 3])"
    by code_simp
  have g: "wait_times (snd (projr (exec DTA1 rs_queue 16))) = [0, 0, 1]" by code_simp
  from a b c d e f g show ?thesis by simp
qed

subsection \<open>The pools of a run of the script\<close>

lemma bounded_hospitals: "hospitals s' = hospitals s \<Longrightarrow> bounded s \<Longrightarrow> bounded s'"
  by (simp add: bounded_def)

lemma bounded_schedule: "bounded s \<Longrightarrow> bounded (schedule ev p d s)"
  by (simp add: bounded_def schedule_def)

lemma bounded_timeout: "timeout d cbs s = Inr s' \<Longrightarrow> bounded s \<Longrightarrow> bounded s'"
  by (auto simp: timeout_def bounded_schedule split: if_splits)

lemma bounded_succeed: "bounded s \<Longrightarrow> bounded (succeed g s)"
  by (cases g) (simp_all add: succeed_def bounded_schedule)

lemma bounded_set_doctor:
  assumes "in_use (doctor (hospitals s ! h)) \<le> capacity (doctor (hospitals s ! h)) \<Longrightarrow>
           in_use r \<le> capacity r"
    and "bounded s"
  shows "bounded (set_doctor h r s)"
proof (cases "h < length (hospitals s)")
  case True
  with assms(2) have "in_use (doctor (hospitals s ! h)) \<le> capacity (doctor (hospitals s ! h))"
    by (simp add: bounded_def)
  with assms show ?thesis
    by (auto simp: bounded_def set_doctor_def dest!: in_set_update)
next
  case False
  with assms(2) show ?thesis by (simp add: bounded_def set_doctor_def list_update_beyond)
qed

lemma bounded_doctor_request:
  "doctor_request h cbs s = (s', q) \<Longrightarrow> bounded s \<Longrightarrow> bounded s'"
proof -
  assume a: "doctor_request h cbs s = (s', q)" and b: "bounded s"
  let ?s1 = "s\<lparr>rid := Suc (rid s)\<rparr>"
  let ?q = "(rid s, Trigger_get h # cbs)"
  obtain r g where r: "request (doctor (hospitals s ! h)) ?q = (r, g)"
    by (cases "request (doctor (hospitals s ! h)) ?q")
  with a have s': "s' = succeed g (set_doctor h r ?s1)"
    by (simp add: doctor_request_def Let_def)
  from b have "bounded ?s1" by (simp add: bounded_def)
  then have "bounded (set_doctor h r ?s1)"
    using request_bound [of "doctor (hospitals s ! h)" ?q] r
    by (intro bounded_set_doctor) simp_all
  then show ?thesis unfolding s' by (rule bounded_succeed)
qed

lemma bounded_doctor_release: "bounded s \<Longrightarrow> bounded (doctor_release h q s)"
  unfolding doctor_release_def
  by (intro bounded_schedule bounded_set_doctor release_bound)

lemma bounded_doctor_trigger_put: "bounded s \<Longrightarrow> bounded (doctor_trigger_put h s)"
proof -
  assume b: "bounded s"
  obtain r g where r: "trigger_put (doctor (hospitals s ! h)) = (r, g)"
    by (cases "trigger_put (doctor (hospitals s ! h))")
  from b have "bounded (set_doctor h r s)"
    using trigger_put_bound [of "doctor (hospitals s ! h)"] r
    by (intro bounded_set_doctor) simp_all
  with r show ?thesis by (simp add: doctor_trigger_put_def bounded_succeed)
qed

lemma bounded_suspend: "bounded s \<Longrightarrow> bounded (suspend pid g s)"
  by (simp add: bounded_def suspend_def)

lemma bounded_terminate: "bounded s \<Longrightarrow> bounded (terminate pid s)"
  unfolding terminate_def by (intro bounded_schedule bounded_suspend)

lemma bounded_process: "bounded s \<Longrightarrow> bounded (process g cbs s)"
  by (simp add: bounded_def process_def schedule_def)

lemma bounded_patient_arrives:
  "patient_arrives pid name h s = Inr s' \<Longrightarrow> bounded s \<Longrightarrow> bounded s'"
  unfolding patient_arrives_def Let_def
  apply (clarsimp split: prod.splits)
  apply (rule bounded_suspend)
  apply (erule bounded_doctor_request)
  apply (simp add: bounded_def)
  done

lemma bounded_patient_granted:
  "patient_granted cfg rs pid name h q s = Inr s' \<Longrightarrow> bounded s \<Longrightarrow> bounded s'"
  unfolding patient_granted_def Let_def
  apply (clarsimp split: if_splits)
   apply (intro bounded_suspend bounded_process)
   apply (simp add: bounded_def)
  apply (intro bounded_terminate bounded_doctor_release)
  apply (simp add: bounded_def)
  done

lemma bounded_patient_treated:
  "patient_treated pid name h q s = Inr s' \<Longrightarrow> bounded s \<Longrightarrow> bounded s'"
  unfolding patient_treated_def Let_def
  apply clarsimp
  apply (intro bounded_terminate bounded_doctor_release)
  apply (simp add: bounded_def)
  done

lemma bounded_treat_start:
  "treat_start rs pid h name s = Inr s' \<Longrightarrow> bounded s \<Longrightarrow> bounded s'"
  unfolding treat_start_def Let_def
  apply (clarsimp split: if_splits sum.splits)
  apply (rule bounded_suspend)
  apply (erule bounded_timeout)
  apply (simp add: bounded_def)
  done

lemma bounded_treat_done:
  "treat_done pid name d s = Inr s' \<Longrightarrow> bounded s \<Longrightarrow> bounded s'"
  unfolding treat_done_def
  apply clarsimp
  apply (rule bounded_terminate)
  apply (simp add: bounded_def)
  done

lemma bounded_setup_wait:
  "setup_wait rs pid h i t_inter s = Inr s' \<Longrightarrow> bounded s \<Longrightarrow> bounded s'"
  unfolding setup_wait_def Let_def
  apply (clarsimp split: if_splits sum.splits)
  apply (rule bounded_suspend)
  apply (erule bounded_timeout)
  apply (simp add: bounded_def)
  done

lemma bounded_setup_start:
  "setup_start rs pid nd tt t_inter s = Inr s' \<Longrightarrow> bounded s \<Longrightarrow> bounded s'"
  unfolding setup_start_def Let_def
  apply (clarsimp split: sum.splits)
  apply (erule bounded_setup_wait)
  apply (intro bounded_process)
  apply (auto simp: bounded_def Resource_def in_use_def split: if_splits)
  done

lemma bounded_setup_resumed:
  "setup_resumed rs pid h i t_inter d s = Inr s' \<Longrightarrow> bounded s \<Longrightarrow> bounded s'"
  unfolding setup_resumed_def Let_def
  apply (erule bounded_setup_wait)
  apply (rule bounded_process)
  apply (simp add: bounded_def)
  done

lemma bounded_add_doctors_loop:
  "add_doctors_loop pid h k s = Inr s' \<Longrightarrow> bounded s \<Longrightarrow> bounded s'"
  unfolding add_doctors_loop_def
  apply (clarsimp split: if_splits prod.splits sum.splits)
   apply (erule bounded_terminate)
  apply (rule bounded_suspend)
  apply (erule bounded_timeout)
  apply (erule bounded_doctor_request)
  apply assumption
  done

lemma bounded_add_doctors:
  "add_doctors pid h n s = Inr s' \<Longrightarrow> bounded s \<Longrightarrow> bounded s'"
  unfolding add_doctors_def
  apply (erule bounded_add_doctors_loop)
  apply (simp add: bounded_def)
  done

lemma bounded_resume: "resume cfg rs pid s = Inr s' \<Longrightarrow> bounded s \<Longrightarrow> bounded s'"
  unfolding resume_def
  by (auto split: if_splits generator.splits
      intro: bounded_patient_arrives bounded_patient_granted bounded_patient_treated
        bounded_treat_start bounded_treat_done bounded_setup_start bounded_setup_resumed
        bounded_add_doctors bounded_add_doctors_loop)

lemma bounded_run_callbacks:
  "run_callbacks cfg rs cbs s = Inr (b, s') \<Longrightarrow> bounded s \<Longrightarrow> bounded s'"
proof (induction cfg rs cbs s rule: run_callbacks.induct)
  case (3 cfg rs pid cs s)
  from "3.prems"(1) obtain s1 where r: "resume cfg rs pid s = Inr s1"
    and c: "run_callbacks cfg rs cs s1 = Inr (b, s')"
    by (auto split: sum.splits)
  from "3.IH" [OF r c bounded_resume [OF r "3.prems"(2)]] show ?case .
next
  case (4 cfg rs h cs s)
  then show ?case by (simp add: bounded_doctor_trigger_put)
qed simp_all

lemma bounded_step:
  assumes "step cfg rs s = Inr (b, s')" and "bounded s"
  shows "bounded s'"
proof (cases "heappop (queue s)")
  case None
  with assms show ?thesis by (simp add: step_def)
next
  case (Some mr)
  obtain t p i k cbs r where mr: "mr = ((t, p, i, k, cbs), r)" by (cases mr) auto
  from assms(1) Some mr
  have c: "run_callbacks cfg rs cbs (s\<lparr>now := t, queue := r\<rparr>) = Inr (b, s')"
    by (simp add: step_def)
  from assms(2) have "bounded (s\<lparr>now := t, queue := r\<rparr>)" by (simp add: bounded_def)
  from bounded_run_callbacks [OF c this] show ?thesis .
qed

lemma bounded_run_until: "run_until t s = Inr s' \<Longrightarrow> bounded s \<Longrightarrow> bounded s'"
  by (auto simp: run_until_def bounded_schedule split: if_splits)

lemma bounded_start: "start cfg = Inr (ph, s) \<Longrightarrow> bounded s"
  apply (clarsimp simp: start_def Let_def split: sum.splits)
  apply (erule bounded_run_until)
  apply (rule bounded_process)
  apply (auto simp: bounded_def Resource_def in_use_def split: if_splits)
  done

lemma bounded_script_step:
  assumes st: "script_step cfg rs (ph, s) = Inr (ph', s')" and u: "bounded s"
  shows "bounded s'"
proof (cases ph)
  case Report
  with st u show ?thesis by (simp add: script_step_def)
next
  case First_run
  show ?thesis
  proof (cases "step cfg rs s")
    case (Inl e)
    with st First_run show ?thesis by (simp add: script_step_def)
  next
    case (Inr bs)
    obtain b s1 where bs: "bs = (b, s1)" by (cases bs)
    from bounded_step [OF Inr [unfolded bs] u] have u1: "bounded s1" .
    show ?thesis
    proof (cases b)
      case False
      with st First_run Inr bs u1 show ?thesis by (simp add: script_step_def)
    next
      case True
      with st First_run Inr bs
      have r: "run_until 200 (process (Add_doctors_start 0 2) [] s1) = Inr s'"
        by (simp add: script_step_def split: sum.splits)
      from bounded_run_until [OF r bounded_process [OF u1]] show ?thesis .
    qed
  qed
next
  case Second_run
  show ?thesis
  proof (cases "step cfg rs s")
    case (Inl e)
    with st Second_run show ?thesis by (simp add: script_step_def)
  next
    case (Inr bs)
    obtain b s1 where bs: "bs = (b, s1)" by (cases bs)
    from bounded_step [OF Inr [unfolded bs] u] have u1: "bounded s1" .
    from st Second_run Inr bs have "s' = s1"
      by (cases b) (simp_all add: script_step_def)
    with u1 show ?thesis by simp
  qed
qed

text \<open>
  The bound on the slots in use also holds for every pool in every state of a run of
  the script, where \<open>add_doctors\<close> is what stands for an expansion.
\<close>

lemma bounded_exec: "exec cfg rs n = Inr (ph, s) \<Longrightarrow> bounded s"
proof (induction n arbitrary: ph s)
  case 0
  then show ?case by (simp add: bounded_start)
next
  case (Suc n)
  then obtain ph0 s0 where e: "exec cfg rs n = Inr (ph0, s0)"
    and st: "script_step cfg rs (ph0, s0) = Inr (ph, s)"
    by (auto split: sum.splits)
  from bounded_script_step [OF st Suc.IH [OF e]] show ?case .
qed

lemma script_in_use_le_capacity:
  "exec cfg rs n = Inr (ph, s) \<Longrightarrow> h \<in> set (hospitals s) \<Longrightarrow>
   in_use (doctor h) \<le> capacity (doctor h)"
  by (drule bounded_exec) (simp add: bounded_def)

end
